theory Spec2Isabelle
  imports Main "HOL-Library.Word"
begin

section \<open>Bidirectional RPC session: data model\<close>

text \<open>
  The development embeds \<^verbatim>\<open>session.go\<close> of package \<^verbatim>\<open>bidirpc\<close>. A goroutine
  that calls one of the functions below either returns, parks (on a mutex that is
  held, or in a \<^verbatim>\<open>select\<close> none of whose cases is ready), or panics. Each function
  runs as one step on the state of the session. The other goroutines show in the state
  a step starts from (a lock one of them holds, a session one of them has closed) and
  in the environment of the \<^verbatim>\<open>select\<close> statement of the reader loop.
\<close>

type_synonym byte = "8 word"

datatype error =
    EOF
  | ErrUnexpectedEOF
  | ErrShutdown
  | ConnError string
  | Errorf string "error option"

datatype 'a outcome = Returns 'a | Blocks | Panics

subsection \<open>sync.Mutex and channels of \<^verbatim>\<open>struct{}\<close>\<close>

text \<open>
  A mutex is its held flag. \<^verbatim>\<open>Lock\<close> on a held mutex parks the caller (\<open>None\<close>).
  A \<^verbatim>\<open>chan struct{}\<close> on which nothing is ever sent is its closed flag; closing a
  closed channel panics (\<open>None\<close>).
\<close>

type_synonym Mutex = bool

definition Lock :: "Mutex \<Rightarrow> Mutex option" where
  "Lock m = (if m then None else Some True)"

definition Unlock :: "Mutex \<Rightarrow> Mutex" where
  "Unlock m = False"

definition close_chan :: "bool \<Rightarrow> bool option" where
  "close_chan c = (if c then None else Some True)"

subsection \<open>The connection (io.ReadWriteCloser)\<close>

text \<open>
  The connection is the environment of a session. Its reading side is the byte
  sequence the peer will still deliver, followed by the error every later
  \<^verbatim>\<open>Read\<close> returns (\<open>EOF\<close> after an orderly shutdown by the peer). Its writing side
  is the error \<^verbatim>\<open>Write\<close> returns, if any, and the bytes accepted so far.
  \<open>close_calls\<close> counts the calls of \<^verbatim>\<open>Close\<close>.
\<close>

record ReadWriteCloser =
  rd_pending :: "byte list"
  rd_final :: error
  wr_error :: "error option"
  wr_written :: "byte list"
  close_calls :: nat

definition conn_Write :: "byte list \<Rightarrow> ReadWriteCloser \<Rightarrow> error option \<times> ReadWriteCloser" where
  "conn_Write bytes c =
     (case wr_error c of
        None \<Rightarrow> (None, c\<lparr>wr_written := wr_written c @ bytes\<rparr>)
      | Some e \<Rightarrow> (Some e, c))"

definition conn_Close :: "ReadWriteCloser \<Rightarrow> ReadWriteCloser" where
  "conn_Close c = c\<lparr>close_calls := Suc (close_calls c)\<rparr>"

subsection \<open>Buffers, the buffer pool, sub-channels and codecs\<close>

text \<open>
  A \<^verbatim>\<open>*bytes.Buffer\<close> is its contents together with the identity of the allocation
  it points to.
\<close>

record buffer =
  buf_id :: nat
  buf_data :: "byte list"

text \<open>
  Modelled from the spec: the type \<^verbatim>\<open>bufferPool\<close> with \<^verbatim>\<open>newBufferPool\<close>,
  \<^verbatim>\<open>Get\<close> and \<^verbatim>\<open>Put\<close> is not part of \<^verbatim>\<open>session.go\<close>. The pool is a cache of
  fixed capacity; \<^verbatim>\<open>Get\<close> returns a pooled buffer with its length reset to zero, or
  allocates a fresh one when the pool is empty, and never blocks; \<^verbatim>\<open>Put\<close> returns
  the buffer to the pool if capacity remains and discards it otherwise.
  \<open>pool_allocated\<close> counts the allocations so far and names the next one.
\<close>

record bufferPool =
  pool_size :: int
  pool_bufs :: "buffer list"
  pool_allocated :: nat

definition newBufferPool :: "int \<Rightarrow> bufferPool" where
  "newBufferPool n = \<lparr>pool_size = n, pool_bufs = [], pool_allocated = 0\<rparr>"

definition Get :: "bufferPool \<Rightarrow> buffer \<times> bufferPool" where
  "Get p =
     (case pool_bufs p of
        [] \<Rightarrow> (\<lparr>buf_id = pool_allocated p, buf_data = []\<rparr>,
               p\<lparr>pool_allocated := Suc (pool_allocated p)\<rparr>)
      | b # bs \<Rightarrow> (b\<lparr>buf_data := []\<rparr>, p\<lparr>pool_bufs := bs\<rparr>))"

definition Put :: "buffer \<Rightarrow> bufferPool \<Rightarrow> bufferPool" where
  "Put b p =
     (if int (length (pool_bufs p)) < pool_size p
      then p\<lparr>pool_bufs := pool_bufs p @ [b]\<rparr>
      else p)"

text \<open>
  Modelled from the spec: the type \<^verbatim>\<open>stream\<close> with \<^verbatim>\<open>newStream\<close> is not part of
  \<^verbatim>\<open>session.go\<close>. A sub-channel has an identifying tag and an inbound delivery
  channel \<^verbatim>\<open>inC\<close> of pooled buffers; \<open>inC\<close> lists the buffers sent on it, oldest
  first. The back-reference to the owning session is the session itself.
\<close>

record stream =
  stream_type :: byte
  inC :: "buffer list"

definition newStream :: "byte \<Rightarrow> stream" where
  "newStream t = \<lparr>stream_type = t, inC = []\<rparr>"

text \<open>The two \<^verbatim>\<open>*stream\<close> pointers a session owns.\<close>

datatype stream_ptr = Ptr_streamYin | Ptr_streamYang

text \<open>
  Modelled from the spec: \<^verbatim>\<open>clientCodec\<close> and \<^verbatim>\<open>serverCodec\<close> with their
  constructors are not part of \<^verbatim>\<open>session.go\<close>. Each codec bridge is bound to the one
  sub-channel it is constructed with.
\<close>

datatype clientCodec = ClientCodec stream_ptr
datatype serverCodec = ServerCodec stream_ptr

definition newClientCodec :: "stream_ptr \<Rightarrow> clientCodec" where
  "newClientCodec st = ClientCodec st"

definition newServerCodec :: "stream_ptr \<Rightarrow> serverCodec" where
  "newServerCodec st = ServerCodec st"

fun client_stream :: "clientCodec \<Rightarrow> stream_ptr" where
  "client_stream (ClientCodec st) = st"

fun server_stream :: "serverCodec \<Rightarrow> stream_ptr" where
  "server_stream (ServerCodec st) = st"

subsection \<open>The generic RPC engine (net/rpc)\<close>

text \<open>
  Of the standard library's \<^verbatim>\<open>rpc.Client\<close> the session uses \<^verbatim>\<open>NewClientWithCodec\<close>,
  \<^verbatim>\<open>Call\<close> and \<^verbatim>\<open>Close\<close>. \<^verbatim>\<open>Close\<close> returns \<^verbatim>\<open>ErrShutdown\<close> when the client is
  already closing and sets the closing flag otherwise; \<^verbatim>\<open>Call\<close> registers the call
  only when the client is neither closing nor shut down, and completes it at once with
  \<^verbatim>\<open>ErrShutdown\<close> otherwise. What a call on a live client does is up to the peer:
  the argument \<open>reply\<close> is that behaviour. \<^verbatim>\<open>Close\<close> ends with the \<^verbatim>\<open>Close\<close> of
  the codec, which is not part of \<^verbatim>\<open>session.go\<close> and is taken to return nil.
\<close>

record rpc_Client =
  codec :: clientCodec
  closing :: bool
  shutdown :: bool

definition NewClientWithCodec :: "clientCodec \<Rightarrow> rpc_Client" where
  "NewClientWithCodec c = \<lparr>codec = c, closing = False, shutdown = False\<rparr>"

definition Client_Close :: "rpc_Client \<Rightarrow> error option \<times> rpc_Client" where
  "Client_Close cl =
     (if closing cl then (Some ErrShutdown, cl)
      else (None, cl\<lparr>closing := True\<rparr>))"

definition Client_Call :: "error option outcome \<Rightarrow> rpc_Client \<Rightarrow> error option outcome" where
  "Client_Call reply cl =
     (if shutdown cl \<or> closing cl then Returns (Some ErrShutdown) else reply)"

record rpc_Server =
  registered :: "string list"

definition NewServer :: rpc_Server where
  "NewServer = \<lparr>registered = []\<rparr>"

subsection \<open>Session\<close>

definition streamTypeYin :: byte where
  "streamTypeYin = 1"

definition streamTypeYang :: byte where
  "streamTypeYang = 2"

definition defaultBufferPoolSize :: int where
  "defaultBufferPoolSize = 16"

record Session =
  conn :: ReadWriteCloser
  yinOrYang :: bool
  writeLock :: Mutex
  bp :: bufferPool
  streamYin :: stream
  streamYang :: stream
  client :: rpc_Client
  server :: rpc_Server
  closeLock :: Mutex
  closed :: bool
  closedC :: bool

fun deref :: "Session \<Rightarrow> stream_ptr \<Rightarrow> stream" where
  "deref s Ptr_streamYin = streamYin s"
| "deref s Ptr_streamYang = streamYang s"

text \<open>The goroutines a constructor starts.\<close>

datatype goroutine = Go_ServeCodec serverCodec | Go_readLoop

text \<open>
  \<^verbatim>\<open>NewSession\<close> returns a \<^verbatim>\<open>*Session\<close> (\<open>None\<close> is the nil pointer) and an error
  (\<open>None\<close> is nil), and has started the goroutines in \<open>spawned\<close>.
\<close>

record NewSession_result =
  ret_session :: "Session option"
  ret_err :: "error option"
  spawned :: "goroutine list"

definition NewSession :: "ReadWriteCloser \<Rightarrow> bool \<Rightarrow> int \<Rightarrow> NewSession_result" where
  "NewSession c yy bufferPoolSize =
     (let bufferPoolSize =
            (if bufferPoolSize = 0 then defaultBufferPoolSize else bufferPoolSize);
          cliCodec =
            (if yy then newClientCodec Ptr_streamYin else newClientCodec Ptr_streamYang);
          svrCodec =
            (if yy then newServerCodec Ptr_streamYang else newServerCodec Ptr_streamYin);
          s = \<lparr>conn = c,
               yinOrYang = yy,
               writeLock = False,
               bp = newBufferPool bufferPoolSize,
               streamYin = newStream streamTypeYin,
               streamYang = newStream streamTypeYang,
               client = NewClientWithCodec cliCodec,
               server = NewServer,
               closeLock = False,
               closed = False,
               closedC = False\<rparr>
      in \<lparr>ret_session = Some s,
          ret_err = None,
          spawned = [Go_ServeCodec svrCodec, Go_readLoop]\<rparr>)"

subsection \<open>Construction with helpers that may fail\<close>





subsection \<open>Calls as sequences of steps\<close>

text \<open>
  \<^verbatim>\<open>doClose\<close>, \<^verbatim>\<open>Close\<close> and \<^verbatim>\<open>write\<close> take locks, so what they do depends on
  where the other goroutines are. Each of them is a sequence of steps, one statement of
  the source that touches the session per step, and the goroutine that runs it is at
  one of these places:
  \<^item> \<open>In_doClose err pc c\<close>: in \<^verbatim>\<open>doClose(err)\<close>, called from \<open>c\<close>, before the
    statement \<open>pc\<close>;
  \<^item> \<open>Write_Lock bytes\<close>, \<open>Write_conn bytes\<close>, \<open>Write_Unlock err\<close>: in
    \<^verbatim>\<open>write(bytes)\<close>, before \<^verbatim>\<open>s.writeLock.Lock()\<close>, before
    \<^verbatim>\<open>s.conn.Write(bytes)\<close>, and before the deferred \<^verbatim>\<open>Unlock\<close> with \<open>err\<close> to
    return;
  \<^item> \<open>Returned err\<close>: the call has returned (\<open>err\<close> is the error \<^verbatim>\<open>Close\<close> and
    \<^verbatim>\<open>write\<close> return; \<^verbatim>\<open>doClose\<close> returns nothing);
  \<^item> \<open>Panicked\<close>: the goroutine has panicked.
\<close>

datatype dc_pc =
    DC_Lock | DC_Check | DC_SetClosed | DC_CloseChan | DC_ConnClose | DC_ClientClose
  | DC_Unlock

datatype caller = From_Close | From_readLoop | From_write "error option"

datatype thread =
    In_doClose "error option" dc_pc caller
  | Write_Lock "byte list"
  | Write_conn "byte list"
  | Write_Unlock "error option"
  | Returned "error option"
  | Panicked

text \<open>Where the caller goes on when \<^verbatim>\<open>doClose\<close> returns.\<close>

fun resume :: "caller \<Rightarrow> thread" where
  "resume From_Close = Returned None"
| "resume From_readLoop = Returned None"
| "resume (From_write err) = Write_Unlock err"

text \<open>
  One step of a goroutine on the session. A goroutine at a \<^verbatim>\<open>Lock\<close> whose mutex is
  held stays where it is and leaves the session as it is.
\<close>

fun step :: "thread \<Rightarrow> Session \<Rightarrow> thread \<times> Session" where
  "step (In_doClose err DC_Lock c) s =
     (case Lock (closeLock s) of
        None \<Rightarrow> (In_doClose err DC_Lock c, s)
      | Some l \<Rightarrow> (In_doClose err DC_Check c, s\<lparr>closeLock := l\<rparr>))"
| "step (In_doClose err DC_Check c) s =
     (if closed s then (In_doClose err DC_Unlock c, s)
      else (In_doClose err DC_SetClosed c, s))"
| "step (In_doClose err DC_SetClosed c) s =
     (In_doClose err DC_CloseChan c, s\<lparr>closed := True\<rparr>)"
| "step (In_doClose err DC_CloseChan c) s =
     (case close_chan (closedC s) of
        None \<Rightarrow> (Panicked, s)
      | Some ch \<Rightarrow> (In_doClose err DC_ConnClose c, s\<lparr>closedC := ch\<rparr>))"
| "step (In_doClose err DC_ConnClose c) s =
     (In_doClose err DC_ClientClose c, s\<lparr>conn := conn_Close (conn s)\<rparr>)"
| "step (In_doClose err DC_ClientClose c) s =
     (In_doClose err DC_Unlock c, s\<lparr>client := snd (Client_Close (client s))\<rparr>)"
| "step (In_doClose err DC_Unlock c) s =
     (resume c, s\<lparr>closeLock := Unlock (closeLock s)\<rparr>)"
| "step (Write_Lock bytes) s =
     (case Lock (writeLock s) of
        None \<Rightarrow> (Write_Lock bytes, s)
      | Some l \<Rightarrow> (Write_conn bytes, s\<lparr>writeLock := l\<rparr>))"
| "step (Write_conn bytes) s =
     (let (err, c) = conn_Write bytes (conn s);
          s = s\<lparr>conn := c\<rparr>
      in
      if err \<noteq> None
      then (In_doClose (Some (Errorf ''write error: '' err)) DC_Lock (From_write err), s)
      else (Write_Unlock err, s))"
| "step (Write_Unlock err) s = (Returned err, s\<lparr>writeLock := Unlock (writeLock s)\<rparr>)"
| "step (Returned err) s = (Returned err, s)"
| "step Panicked s = (Panicked, s)"

text \<open>
  A goroutine running on its own for \<open>n\<close> steps, and a call run on its own to its
  end. No call has more than ten steps (\<^verbatim>\<open>write\<close> with a failing connection has
  ten), and a goroutine that has returned, has panicked or waits for a held lock stays
  as it is, so ten steps decide the outcome.
\<close>

fun exec :: "nat \<Rightarrow> thread \<Rightarrow> Session \<Rightarrow> thread \<times> Session" where
  "exec 0 t s = (t, s)"
| "exec (Suc n) t s = (case step t s of (t', s') \<Rightarrow> exec n t' s')"

definition run_call :: "thread \<Rightarrow> Session \<Rightarrow> (error option \<times> Session) outcome" where
  "run_call t s =
     (case exec 10 t s of
        (Returned err, s') \<Rightarrow> Returns (err, s')
      | (Panicked, s') \<Rightarrow> Panics
      | (_, s') \<Rightarrow> Blocks)"

text \<open>
  Goroutines running together: \<open>ts i\<close> is where goroutine \<open>i\<close> is, and a schedule
  lists the goroutines in the order in which they take their steps.
\<close>

definition sched_step :: "nat \<Rightarrow> (nat \<Rightarrow> thread) \<times> Session \<Rightarrow> (nat \<Rightarrow> thread) \<times> Session" where
  "sched_step i cfg =
     (case step (fst cfg i) (snd cfg) of (t', s') \<Rightarrow> ((fst cfg)(i := t'), s'))"

definition run :: "nat list \<Rightarrow> (nat \<Rightarrow> thread) \<times> Session \<Rightarrow> (nat \<Rightarrow> thread) \<times> Session" where
  "run sched cfg = fold sched_step sched cfg"

subsection \<open>Close lifecycle\<close>

definition doClose :: "error option \<Rightarrow> Session \<Rightarrow> Session outcome" where
  "doClose err s =
     (case run_call (In_doClose err DC_Lock From_readLoop) s of
        Returns (e, s') \<Rightarrow> Returns s'
      | Blocks \<Rightarrow> Blocks
      | Panics \<Rightarrow> Panics)"

definition Close :: "Session \<Rightarrow> (error option \<times> Session) outcome" where
  "Close s = run_call (In_doClose None DC_Lock From_Close) s"

definition Call :: "error option outcome \<Rightarrow> Session \<Rightarrow> error option outcome" where
  "Call reply s = Client_Call reply (client s)"

text \<open>
  The fields of a session are private, so every session a caller holds was made by
  \<^verbatim>\<open>NewSession\<close> and changed only by the functions of this file. Such a session
  has closed its cancellation channel exactly when the closed flag is set, has then
  closed its connection and its RPC client too, and its two sub-channels carry their
  own tags.
\<close>

definition session_inv :: "Session \<Rightarrow> bool" where
  "session_inv s \<longleftrightarrow>
     closedC s = closed s \<and>
     (closed s \<longrightarrow> closing (client s) \<and> 0 < close_calls (conn s)) \<and>
     stream_type (streamYin s) = streamTypeYin \<and>
     stream_type (streamYang s) = streamTypeYang"

subsection \<open>Reading from the connection (package io)\<close>

text \<open>
  \<^verbatim>\<open>io.ReadFull(conn, buf)\<close> with \<open>n\<close> the length of \<^verbatim>\<open>buf\<close>: it reads until the
  buffer is full. It returns no error when it has read \<open>n\<close> bytes; the reader's error
  when it has read nothing; and, when it has read fewer than \<open>n\<close> bytes, the reader's
  error with \<^verbatim>\<open>EOF\<close> replaced by \<^verbatim>\<open>ErrUnexpectedEOF\<close>.
\<close>

definition io_ReadFull ::
  "nat \<Rightarrow> ReadWriteCloser \<Rightarrow> (byte list \<times> error option) \<times> ReadWriteCloser" where
  "io_ReadFull n c =
     (let p = rd_pending c in
      if n \<le> length p then ((take n p, None), c\<lparr>rd_pending := drop n p\<rparr>)
      else if p = [] then (([], Some (rd_final c)), c)
      else ((p, Some (if rd_final c = EOF then ErrUnexpectedEOF else rd_final c)),
            c\<lparr>rd_pending := []\<rparr>))"

text \<open>
  \<^verbatim>\<open>reader.N = n; io.Copy(body, &reader)\<close> with \<^verbatim>\<open>reader\<close> an
  \<^verbatim>\<open>io.LimitedReader\<close> on the connection and \<^verbatim>\<open>body\<close> a \<^verbatim>\<open>*bytes.Buffer\<close>.
  \<^verbatim>\<open>io.Copy\<close> hands over to \<^verbatim>\<open>body.ReadFrom(&reader)\<close>, which appends what it
  reads until the reader returns an error, and returns that error unless it is
  \<^verbatim>\<open>EOF\<close>: a copy that ends with \<^verbatim>\<open>EOF\<close> returns nil. The limited reader returns
  \<^verbatim>\<open>EOF\<close> itself once \<open>n\<close> bytes have been read, and passes on what the connection
  returns before that.
\<close>

definition io_Copy_LimitedReader ::
  "buffer \<Rightarrow> int \<Rightarrow> ReadWriteCloser \<Rightarrow> (buffer \<times> error option) \<times> ReadWriteCloser" where
  "io_Copy_LimitedReader body n c =
     (let p = rd_pending c in
      if nat n \<le> length p
      then ((body\<lparr>buf_data := buf_data body @ take (nat n) p\<rparr>, None),
            c\<lparr>rd_pending := drop (nat n) p\<rparr>)
      else ((body\<lparr>buf_data := buf_data body @ p\<rparr>,
             if rd_final c = EOF then None else Some (rd_final c)),
            c\<lparr>rd_pending := []\<rparr>))"

text \<open>
  Modelled from the spec: \<^verbatim>\<open>decodeHeader\<close> is not part of \<^verbatim>\<open>session.go\<close>. The
  header is one byte of tag followed by three bytes of body length, big-endian; the
  reader loop calls the decoder on four bytes only. The reader loop below takes the
  decoder as its argument \<open>dec\<close>, so what is proved of the loop holds for every
  decoder.
\<close>

definition decodeHeader :: "byte list \<Rightarrow> byte \<times> int" where
  "decodeHeader header =
     (header ! 0,
      int (unat (header ! 1)) * 65536 + int (unat (header ! 2)) * 256
        + int (unat (header ! 3)))"

subsection \<open>The reader loop\<close>

text \<open>
  What the other goroutines do while the reader loop is on its way to the
  \<^verbatim>\<open>select\<close> of one iteration and waits there: whether one of them closes the
  session (\<open>ext_close\<close>), whether the send on \<^verbatim>\<open>inC\<close> can proceed
  (\<open>recv_ready\<close>), and which case the runtime picks when both are ready
  (\<open>pick_send\<close>).
\<close>

record select_env =
  ext_close :: bool
  recv_ready :: bool
  pick_send :: bool

datatype select_case = Case_closedC | Case_send

definition select :: "select_env \<Rightarrow> bool \<Rightarrow> select_case option" where
  "select env cancelled =
     (if cancelled \<and> recv_ready env
      then Some (if pick_send env then Case_send else Case_closedC)
      else if cancelled then Some Case_closedC
      else if recv_ready env then Some Case_send
      else None)"

definition env_Close :: "bool \<Rightarrow> Session \<Rightarrow> Session" where
  "env_Close b s =
     (if b then (case Close s of Returns (e, s') \<Rightarrow> s' | Blocks \<Rightarrow> s | Panics \<Rightarrow> s)
      else s)"

fun chan_send :: "stream_ptr \<Rightarrow> buffer \<Rightarrow> Session \<Rightarrow> Session" where
  "chan_send Ptr_streamYin b s =
     s\<lparr>streamYin := (streamYin s)\<lparr>inC := inC (streamYin s) @ [b]\<rparr>\<rparr>"
| "chan_send Ptr_streamYang b s =
     s\<lparr>streamYang := (streamYang s)\<lparr>inC := inC (streamYang s) @ [b]\<rparr>\<rparr>"

datatype loop_ctl = Continue | BreakLoop

definition break_loop :: "Session outcome \<Rightarrow> (loop_ctl \<times> Session) outcome" where
  "break_loop r =
     (case r of Returns s \<Rightarrow> Returns (BreakLoop, s) | Blocks \<Rightarrow> Blocks | Panics \<Rightarrow> Panics)"

text \<open>One iteration of the \<^verbatim>\<open>for\<close> loop of \<^verbatim>\<open>readLoop\<close>.\<close>

definition readLoop_iter ::
  "(byte list \<Rightarrow> byte \<times> int) \<Rightarrow> select_env \<Rightarrow> Session \<Rightarrow> (loop_ctl \<times> Session) outcome" where
  "readLoop_iter dec env s =
     (let ((header, err), c) = io_ReadFull 4 (conn s);
          s = s\<lparr>conn := c\<rparr>
      in
      if err \<noteq> None
      then break_loop (doClose (Some (Errorf ''read header error: '' err)) s)
      else
        (let (streamType, bodyLen) = dec header in
         if (streamType \<noteq> streamTypeYin \<and> streamType \<noteq> streamTypeYang) \<or> bodyLen \<le> 0
         then break_loop (doClose (Some (Errorf ''read a invalid header'' None)) s)
         else
           (let (body, p) = Get (bp s);
                s = s\<lparr>bp := p\<rparr>;
                ((body, err), c) = io_Copy_LimitedReader body bodyLen (conn s);
                s = s\<lparr>conn := c\<rparr>
            in
            if err \<noteq> None
            then
              (let s = s\<lparr>bp := Put body (bp s)\<rparr>
               in break_loop (doClose (Some (Errorf ''read body error: '' err)) s))
            else
              (let inC_ptr =
                     (if streamType = streamTypeYin then Some Ptr_streamYin
                      else if streamType = streamTypeYang then Some Ptr_streamYang
                      else None)
               in
               case inC_ptr of
                 None \<Rightarrow> Panics
               | Some ptr \<Rightarrow>
                   (let s = env_Close (ext_close env) s in
                    case select env (closedC s) of
                      None \<Rightarrow> Blocks
                    | Some Case_closedC \<Rightarrow> Returns (BreakLoop, s)
                    | Some Case_send \<Rightarrow> Returns (Continue, chan_send ptr body s))))))"

text \<open>
  The loop. \<open>envs k\<close> is what the other goroutines do during iteration \<open>k\<close>. Every
  iteration that continues has taken a header off the connection, so the loop ends
  when the peer has nothing more to deliver, at the latest.
\<close>

function readLoop ::
  "(byte list \<Rightarrow> byte \<times> int) \<Rightarrow> (nat \<Rightarrow> select_env) \<Rightarrow> nat \<Rightarrow> Session \<Rightarrow> Session outcome" where
  "readLoop dec envs k s =
     (case readLoop_iter dec (envs k) s of
        Returns (Continue, s') \<Rightarrow> readLoop dec envs (Suc k) s'
      | Returns (BreakLoop, s') \<Rightarrow> Returns s'
      | Blocks \<Rightarrow> Blocks
      | Panics \<Rightarrow> Panics)"
  by pat_completeness auto
termination
proof -
  have step_pending: "rd_pending (conn (snd (step t s))) = rd_pending (conn s)" for t s
    by (cases "(t, s)" rule: step.cases)
      (auto simp: conn_Close_def conn_Write_def Let_def split: option.splits)
  have exec_pending: "rd_pending (conn (snd (exec n t s))) = rd_pending (conn s)" for n t s
  proof (induction n arbitrary: t s)
    case 0
    show ?case by simp
  next
    case (Suc n)
    from Suc [of "fst (step t s)" "snd (step t s)"] step_pending [of t s]
    show ?case by (simp add: split_beta)
  qed
  have "rd_pending (conn s') = rd_pending (conn s)" if "Close s = Returns (e, s')" for s e s'
    using that exec_pending [of 10 "In_doClose None DC_Lock From_Close" s]
    by (auto simp: Close_def run_call_def split: prod.splits thread.splits)
  then have env: "rd_pending (conn (env_Close x s)) = rd_pending (conn s)" for x s
    by (auto simp: env_Close_def split: outcome.splits)
  have shrink: "length (rd_pending (conn s')) < length (rd_pending (conn s))"
    if "readLoop_iter dec env s = Returns (Continue, s')" for dec env s s'
    using that
    by (auto simp: readLoop_iter_def io_ReadFull_def io_Copy_LimitedReader_def Let_def
        break_loop_def env
        split: if_splits prod.splits option.splits outcome.splits select_case.splits)
  show ?thesis
    by (relation "measure (\<lambda>(dec, envs, k, s). length (rd_pending (conn s)))")
      (auto intro: shrink)
qed

subsection \<open>The writer\<close>

text \<open>\<^verbatim>\<open>Session.write\<close> is \<open>Session_write\<close> here.\<close>

definition Session_write :: "byte list \<Rightarrow> Session \<Rightarrow> (error option \<times> Session) outcome" where
  "Session_write bytes s = run_call (Write_Lock bytes) s"

subsection \<open>Goroutines running together\<close>

text \<open>
  The places between \<^verbatim>\<open>s.closeLock.Lock()\<close> and its deferred \<^verbatim>\<open>Unlock\<close>, and
  the places between \<^verbatim>\<open>s.writeLock.Lock()\<close> and its deferred \<^verbatim>\<open>Unlock\<close>.
\<close>

fun holds_closeLock :: "thread \<Rightarrow> bool" where
  "holds_closeLock (In_doClose err pc c) = (pc \<noteq> DC_Lock)"
| "holds_closeLock t = False"

fun from_write :: "caller \<Rightarrow> bool" where
  "from_write (From_write err) = True"
| "from_write c = False"

fun holds_writeLock :: "thread \<Rightarrow> bool" where
  "holds_writeLock (Write_conn bytes) = True"
| "holds_writeLock (Write_Unlock err) = True"
| "holds_writeLock (In_doClose err pc c) = from_write c"
| "holds_writeLock t = False"

text \<open>
  A goroutine at the start of a call: of \<^verbatim>\<open>Close()\<close>, of \<^verbatim>\<open>doClose(err)\<close> from the
  reader loop, or of \<^verbatim>\<open>write(bytes)\<close>.
\<close>

fun call_start :: "thread \<Rightarrow> bool" where
  "call_start (In_doClose err pc c) =
     (pc = DC_Lock \<and> (c = From_readLoop \<or> c = From_Close \<and> err = None))"
| "call_start (Write_Lock bytes) = True"
| "call_start t = False"

text \<open>What closing a session changes.\<close>

definition close_state :: "Session \<Rightarrow> bool \<times> bool \<times> nat \<times> bool" where
  "close_state s = (closed s, closedC s, close_calls (conn s), closing (client s))"

text \<open>
  A session that started as \<open>s0\<close> and on which no close is under way: it is as closed
  as its flag says, and its connection has been closed once more than that of \<open>s0\<close>
  if it has been closed since, and as often otherwise.
\<close>

definition quiet :: "Session \<Rightarrow> Session \<Rightarrow> bool" where
  "quiet s0 s \<longleftrightarrow>
     closedC s = closed s \<and> (closed s \<longrightarrow> closing (client s)) \<and>
     close_calls (conn s) =
       close_calls (conn s0) + (if closed s \<and> \<not> closed s0 then 1 else 0)"

text \<open>What holds of the session while a goroutine is before statement \<open>pc\<close> of \<^verbatim>\<open>doClose\<close>.\<close>

fun phase_ok :: "Session \<Rightarrow> dc_pc \<Rightarrow> Session \<Rightarrow> bool" where
  "phase_ok s0 DC_Lock s = True"
| "phase_ok s0 DC_Check s = quiet s0 s"
| "phase_ok s0 DC_SetClosed s =
     (\<not> closed s \<and> \<not> closedC s \<and> close_calls (conn s) = close_calls (conn s0))"
| "phase_ok s0 DC_CloseChan s =
     (closed s \<and> \<not> closedC s \<and> close_calls (conn s) = close_calls (conn s0) \<and> \<not> closed s0)"
| "phase_ok s0 DC_ConnClose s =
     (closed s \<and> closedC s \<and> close_calls (conn s) = close_calls (conn s0) \<and> \<not> closed s0)"
| "phase_ok s0 DC_ClientClose s =
     (closed s \<and> closedC s \<and> close_calls (conn s) = Suc (close_calls (conn s0)) \<and>
      \<not> closed s0)"
| "phase_ok s0 DC_Unlock s = (closed s \<and> quiet s0 s)"

text \<open>
  Where a goroutine that started at \<open>t0\<close> can be, and what holds of the session when it
  is there: a call of \<^verbatim>\<open>Close\<close> or \<^verbatim>\<open>doClose\<close> is inside \<^verbatim>\<open>doClose\<close> or has
  returned nil from a closed session; a call of \<^verbatim>\<open>write\<close> is at one of its
  places, inside \<^verbatim>\<open>doClose\<close> only after a write error, and past \<^verbatim>\<open>doClose\<close>
  or returned only with the error of the connection and, if there is one, on a closed
  session.
\<close>

fun follows :: "Session \<Rightarrow> thread \<Rightarrow> thread \<Rightarrow> Session \<Rightarrow> bool" where
  "follows s0 (In_doClose err0 pc0 c0) t s =
     ((c0 = From_Close \<or> c0 = From_readLoop) \<and>
      ((\<exists>pc. t = In_doClose err0 pc c0) \<or>
       t = Returned None \<and> closed s \<and> closedC s \<and> closing (client s)))"
| "follows s0 (Write_Lock bytes) t s =
     (t = Write_Lock bytes \<or> t = Write_conn bytes \<or>
      (\<exists>pc. wr_error (conn s0) \<noteq> None \<and>
         t = In_doClose (Some (Errorf ''write error: '' (wr_error (conn s0)))) pc
               (From_write (wr_error (conn s0)))) \<or>
      (t = Write_Unlock (wr_error (conn s0)) \<or> t = Returned (wr_error (conn s0))) \<and>
        (wr_error (conn s0) \<noteq> None \<longrightarrow> closed s \<and> closedC s \<and> closing (client s)))"
| "follows s0 t0 t s = False"

text \<open>
  A mutex and the set of goroutines between its \<^verbatim>\<open>Lock\<close> and \<^verbatim>\<open>Unlock\<close>: it is
  held exactly when there is one, and there are never two.
\<close>

definition lock_ok :: "Mutex \<Rightarrow> nat set \<Rightarrow> bool" where
  "lock_ok l H \<longleftrightarrow> (if l then \<exists>k. H = {k} else H = {})"

text \<open>
  The invariant of goroutines that started at \<open>ts0\<close> on the session \<open>s0\<close>: nobody
  has panicked; every goroutine is at a place of the call it started; each mutex is
  held by the one goroutine inside it; the session is in the phase of the goroutine
  inside \<^verbatim>\<open>doClose\<close>, and quiet when there is none; what is closed stays closed;
  and nothing else of the session changes but what the connection has accepted.
\<close>

definition cfg_inv ::
  "Session \<Rightarrow> (nat \<Rightarrow> thread) \<Rightarrow> (nat \<Rightarrow> thread) \<times> Session \<Rightarrow> bool" where
  "cfg_inv s0 ts0 cfg \<longleftrightarrow>
     (\<forall>i. fst cfg i \<noteq> Panicked) \<and>
     (\<forall>i. follows s0 (ts0 i) (fst cfg i) (snd cfg)) \<and>
     lock_ok (closeLock (snd cfg)) {i. holds_closeLock (fst cfg i)} \<and>
     lock_ok (writeLock (snd cfg)) {i. holds_writeLock (fst cfg i)} \<and>
     (\<forall>i err pc c. fst cfg i = In_doClose err pc c \<longrightarrow> phase_ok s0 pc (snd cfg)) \<and>
     ((\<forall>i. \<not> holds_closeLock (fst cfg i)) \<longrightarrow> quiet s0 (snd cfg)) \<and>
     (closed s0 \<longrightarrow> closed (snd cfg)) \<and>
     wr_error (conn (snd cfg)) = wr_error (conn s0) \<and>
     streamYin (snd cfg) = streamYin s0 \<and> streamYang (snd cfg) = streamYang s0 \<and>
     bp (snd cfg) = bp s0"

subsection \<open>Observations and example inputs\<close>

text \<open>
  Of the result of \<^verbatim>\<open>NewSession\<close>: the size its buffer pool was made with; the
  sub-channel its client codec is bound to, with that sub-channel's tag; and the same
  for the codec of every serve loop it started.
\<close>

definition pool_size_of :: "NewSession_result \<Rightarrow> int option" where
  "pool_size_of r = map_option (\<lambda>s. pool_size (bp s)) (ret_session r)"

definition client_binding :: "NewSession_result \<Rightarrow> (stream_ptr \<times> byte) option" where
  "client_binding r =
     map_option
       (\<lambda>s. (client_stream (codec (client s)),
             stream_type (deref s (client_stream (codec (client s))))))
       (ret_session r)"

definition server_bindings :: "NewSession_result \<Rightarrow> (stream_ptr \<times> byte) list" where
  "server_bindings r =
     (case ret_session r of
        None \<Rightarrow> []
      | Some s \<Rightarrow>
          concat (map (\<lambda>g. case g of
                             Go_ServeCodec sc \<Rightarrow>
                               [(server_stream sc, stream_type (deref s (server_stream sc)))]
                           | Go_readLoop \<Rightarrow> [])
                   (spawned r)))"

text \<open>
  The buffers sent so far on the inbound channel of a sub-channel, and the sub-channel
  the \<^verbatim>\<open>switch\<close> of the reader loop picks for a valid tag.
\<close>

definition queue :: "Session \<Rightarrow> stream_ptr \<Rightarrow> buffer list" where
  "queue s ptr = inC (deref s ptr)"

definition inC_of :: "byte \<Rightarrow> stream_ptr" where
  "inC_of t = (if t = streamTypeYin then Ptr_streamYin else Ptr_streamYang)"

text \<open>
  The allocations the pool and the two inbound channels of a session hold. No
  allocation is held twice, and all of them were handed out by the pool.
\<close>

definition owned_ids :: "Session \<Rightarrow> nat list" where
  "owned_ids s =
     map buf_id (pool_bufs (bp s)) @ map buf_id (inC (streamYin s)) @
     map buf_id (inC (streamYang s))"

definition buffers_inv :: "Session \<Rightarrow> bool" where
  "buffers_inv s \<longleftrightarrow>
     distinct (owned_ids s) \<and> (\<forall>i \<in> set (owned_ids s). i < pool_allocated (bp s))"

text \<open>
  A connection on which the peer sends the header of a frame of five bytes on the yin
  sub-channel, then two bytes, and then shuts down; and the session \<^verbatim>\<open>NewSession\<close>
  makes of it.
\<close>

definition example_conn :: ReadWriteCloser where
  "example_conn =
     \<lparr>rd_pending = [1, 0, 0, 5, 97, 98], rd_final = EOF, wr_error = None,
      wr_written = [], close_calls = 0\<rparr>"

definition example_session :: "bool \<Rightarrow> int \<Rightarrow> Session" where
  "example_session yy n =
     \<lparr>conn = example_conn, yinOrYang = yy, writeLock = False,
      bp = \<lparr>pool_size = (if n = 0 then 16 else n), pool_bufs = [], pool_allocated = 0\<rparr>,
      streamYin = \<lparr>stream_type = 1, inC = []\<rparr>,
      streamYang = \<lparr>stream_type = 2, inC = []\<rparr>,
      client = \<lparr>codec = ClientCodec (if yy then Ptr_streamYin else Ptr_streamYang),
                closing = False, shutdown = False\<rparr>,
      server = \<lparr>registered = []\<rparr>, closeLock = False, closed = False, closedC = False\<rparr>"

text \<open>
  Further sessions: one whose peer sends a header with the unknown tag 3, one whose peer
  sends a whole frame of two bytes on the yang sub-channel, and one whose connection
  refuses to write. In \<open>example_env\<close> a receiver is ready and nobody closes the
  session; in \<open>closing_env\<close> no receiver is ready and another goroutine closes it.
\<close>

definition invalid_tag_session :: Session where
  "invalid_tag_session =
     (example_session True 0)\<lparr>conn := example_conn\<lparr>rd_pending := [3, 0, 0, 1, 7]\<rparr>\<rparr>"

definition yang_frame_session :: Session where
  "yang_frame_session =
     (example_session True 0)\<lparr>conn := example_conn\<lparr>rd_pending := [2, 0, 0, 2, 10, 11]\<rparr>\<rparr>"

definition broken_pipe_session :: Session where
  "broken_pipe_session =
     (example_session True 0)
       \<lparr>conn := example_conn\<lparr>wr_error := Some (ConnError ''broken pipe'')\<rparr>\<rparr>"

definition example_env :: select_env where
  "example_env = \<lparr>ext_close = False, recv_ready = True, pick_send = True\<rparr>"

definition closing_env :: select_env where
  "closing_env = \<lparr>ext_close = True, recv_ready = False, pick_send = True\<rparr>"

text \<open>
  The example session after one iteration of the reader loop: the two bytes the peer
  sent are in the inbound channel of the yin sub-channel.
\<close>

definition short_body_state :: Session where
  "short_body_state =
     (example_session True 0)
       \<lparr>conn := example_conn\<lparr>rd_pending := []\<rparr>,
        bp := \<lparr>pool_size = 16, pool_bufs = [], pool_allocated = 1\<rparr>,
        streamYin := \<lparr>stream_type = 1, inC = [\<lparr>buf_id = 0, buf_data = [97, 98]\<rparr>]\<rparr>\<rparr>"

text \<open>
  An environment in which another goroutine closes the session while a receiver is
  ready and the runtime picks the send, and the session \<open>yang_frame_session\<close> after
  one iteration of the reader loop in it: closed, and with the frame delivered.
\<close>

definition racing_env :: select_env where
  "racing_env = \<lparr>ext_close = True, recv_ready = True, pick_send = True\<rparr>"

definition racing_state :: Session where
  "racing_state =
     yang_frame_session
       \<lparr>conn := example_conn\<lparr>rd_pending := [], close_calls := 1\<rparr>,
        bp := \<lparr>pool_size = 16, pool_bufs = [], pool_allocated = 1\<rparr>,
        streamYang := \<lparr>stream_type = 2, inC = [\<lparr>buf_id = 0, buf_data = [10, 11]\<rparr>]\<rparr>,
        client := \<lparr>codec = ClientCodec Ptr_streamYin, closing = True, shutdown = False\<rparr>,
        closed := True, closedC := True\<rparr>"

text \<open>
  Goroutines for the examples: goroutine 0 calls \<^verbatim>\<open>Close\<close> and all others call
  \<^verbatim>\<open>doClose\<close> with an error, as the reader loop does; and goroutine 0 writes three
  bytes and all others write two. In both schedules goroutine 1 comes to the lock
  while goroutine 0 holds it.
\<close>

definition closers :: "nat \<Rightarrow> thread" where
  "closers i =
     (if i = 0 then In_doClose None DC_Lock From_Close
      else In_doClose (Some (Errorf ''read a invalid header'' None)) DC_Lock From_readLoop)"

definition close_schedule :: "nat list" where
  "close_schedule = [0, 1, 0, 0, 1, 0, 0, 0, 0, 1, 1, 1]"

definition writers :: "nat \<Rightarrow> thread" where
  "writers i = (if i = 0 then Write_Lock [1, 2, 3] else Write_Lock [4, 5])"

definition write_schedule :: "nat list" where
  "write_schedule = [0, 1, 0, 1, 0, 1, 1, 1]"

section \<open>Construction\<close>

lemma NewSession_inv:
  "ret_session (NewSession c yy n) = Some s \<Longrightarrow> session_inv s"
  by (auto simp: NewSession_def Let_def session_inv_def newStream_def NewClientWithCodec_def)

lemma NewSession_example:
  "ret_session (NewSession example_conn yy n) = Some (example_session yy n)"
  by (cases yy; cases "n = 0")
    (simp_all add: example_session_def NewSession_def Let_def newBufferPool_def newStream_def
      NewClientWithCodec_def NewServer_def newClientCodec_def streamTypeYin_def
      streamTypeYang_def defaultBufferPoolSize_def)

lemma example_session_inv: "session_inv (example_session yy n)"
  using NewSession_example by (rule NewSession_inv)

text \<open>
  C2, as amended. \<^verbatim>\<open>NewSession\<close> replaces the supplied buffer-pool size by the
  built-in default 16 exactly when the supplied size is 0; every other size, positive
  or negative, is handed to \<^verbatim>\<open>newBufferPool\<close> unchanged.
\<close>

theorem NewSession_bufferPoolSize:
  "pool_size_of (NewSession c yy n) = Some (if n = 0 then 16 else n)"
  by (simp add: pool_size_of_def NewSession_def Let_def newBufferPool_def
      defaultBufferPoolSize_def)

theorem NewSession_bufferPoolSize_witness:
  "pool_size_of (NewSession example_conn False 0) = Some 16 \<and>
   pool_size_of (NewSession example_conn False 7) = Some 7 \<and>
   pool_size_of (NewSession example_conn False (- 7)) = Some (- 7)"
  using NewSession_bufferPoolSize [of example_conn False 0]
    NewSession_bufferPoolSize [of example_conn False 7]
    NewSession_bufferPoolSize [of example_conn False "- 7"]
  by simp

text \<open>
  C2 as stated fails for a negative size: with the size \<open>- 1\<close> the pool is built with
  \<open>- 1\<close>, not with the default.
\<close>

theorem NewSession_negative_size_counterexample:
  "(- 1 :: int) \<le> 0 \<and>
   pool_size_of (NewSession example_conn True (- 1)) \<noteq> Some defaultBufferPoolSize \<and>
   pool_size_of (NewSession example_conn True (- 1)) = Some (- 1)"
  by (simp add: pool_size_of_def NewSession_def Let_def newBufferPool_def
      defaultBufferPoolSize_def)

text \<open>
  C3. With the role flag set, \<^verbatim>\<open>NewSession\<close> binds the client codec to the yin
  sub-channel (tag 1) and the codec of the serve loop it starts to the yang sub-channel
  (tag 2); with the flag clear it is the other way round. So of two peers made with
  opposite flags, each one's client uses the tag of the other one's server.
\<close>

theorem NewSession_roles:
  "client_binding (NewSession c yy n) =
     Some (if yy then (Ptr_streamYin, 1) else (Ptr_streamYang, 2)) \<and>
   server_bindings (NewSession c yy n) =
     [if yy then (Ptr_streamYang, 2) else (Ptr_streamYin, 1)] \<and>
   map (Some \<circ> snd) (server_bindings (NewSession c' (\<not> yy) n')) =
     [map_option snd (client_binding (NewSession c yy n))] \<and>
   map (Some \<circ> snd) (server_bindings (NewSession c yy n)) =
     [map_option snd (client_binding (NewSession c' (\<not> yy) n'))]"
  by (simp add: NewSession_def Let_def client_binding_def server_bindings_def newStream_def
      NewClientWithCodec_def newClientCodec_def newServerCodec_def streamTypeYin_def
      streamTypeYang_def)

theorem NewSession_roles_witness:
  "client_binding (NewSession example_conn True 0) = Some (Ptr_streamYin, 1) \<and>
   server_bindings (NewSession example_conn True 0) = [(Ptr_streamYang, 2)] \<and>
   client_binding (NewSession example_conn False 0) = Some (Ptr_streamYang, 2) \<and>
   server_bindings (NewSession example_conn False 0) = [(Ptr_streamYin, 1)]"
proof -
  have yin: "client_binding (NewSession example_conn True 0) = Some (Ptr_streamYin, 1) \<and>
      server_bindings (NewSession example_conn True 0) = [(Ptr_streamYang, 2)]"
    using NewSession_roles [of example_conn True 0 example_conn 0]
    by (simp only: if_True)
  have yang: "client_binding (NewSession example_conn False 0) = Some (Ptr_streamYang, 2) \<and>
      server_bindings (NewSession example_conn False 0) = [(Ptr_streamYin, 1)]"
    using NewSession_roles [of example_conn False 0 example_conn 0]
    by (simp only: if_False)
  from yin yang show ?thesis by blast
qed



section \<open>Calls as sequences of steps\<close>

text \<open>
  Run on its own, each call does what the nested statements of the source say:
  \<^verbatim>\<open>doClose\<close> takes the close lock, returns at once on a closed session, and
  otherwise sets the flag, closes the channel, the connection and the client, and
  releases the lock on return; \<^verbatim>\<open>Close\<close> is \<^verbatim>\<open>doClose(nil)\<close> and returns nil;
  \<^verbatim>\<open>write\<close> takes the write lock, writes, calls \<^verbatim>\<open>doClose\<close> after an error,
  and releases the lock on return.
\<close>

lemma doClose_unfold:
  "doClose err s =
     (case Lock (closeLock s) of
        None \<Rightarrow> Blocks
      | Some l \<Rightarrow>
          (let s = s\<lparr>closeLock := l\<rparr> in
           if closed s then Returns (s\<lparr>closeLock := Unlock (closeLock s)\<rparr>)
           else
             (let s = s\<lparr>closed := True\<rparr> in
              case close_chan (closedC s) of
                None \<Rightarrow> Panics
              | Some ch \<Rightarrow>
                  (let s = s\<lparr>closedC := ch\<rparr>;
                       s = s\<lparr>conn := conn_Close (conn s)\<rparr>;
                       s = s\<lparr>client := snd (Client_Close (client s))\<rparr>
                   in Returns (s\<lparr>closeLock := Unlock (closeLock s)\<rparr>)))))"
  by (cases "closeLock s"; cases "closed s"; cases "closedC s")
    (simp_all add: doClose_def run_call_def eval_nat_numeral Lock_def Unlock_def close_chan_def
      Let_def)

lemma Close_unfold:
  "Close s =
     (case doClose None s of
        Returns s' \<Rightarrow> Returns (None, s')
      | Blocks \<Rightarrow> Blocks
      | Panics \<Rightarrow> Panics)"
  by (cases "closeLock s"; cases "closed s"; cases "closedC s")
    (simp_all add: Close_def doClose_def run_call_def eval_nat_numeral Lock_def Unlock_def
      close_chan_def Let_def)

lemma Session_write_unfold:
  "Session_write bytes s =
     (case Lock (writeLock s) of
        None \<Rightarrow> Blocks
      | Some l \<Rightarrow>
          (let s = s\<lparr>writeLock := l\<rparr>;
               (err, c) = conn_Write bytes (conn s);
               s = s\<lparr>conn := c\<rparr>
           in
           if err \<noteq> None
           then
             (case doClose (Some (Errorf ''write error: '' err)) s of
                Returns s \<Rightarrow> Returns (err, s\<lparr>writeLock := Unlock (writeLock s)\<rparr>)
              | Blocks \<Rightarrow> Blocks
              | Panics \<Rightarrow> Panics)
           else Returns (err, s\<lparr>writeLock := Unlock (writeLock s)\<rparr>)))"
  by (cases "writeLock s"; cases "wr_error (conn s)"; cases "closeLock s"; cases "closed s";
      cases "closedC s")
    (simp_all add: Session_write_def doClose_def run_call_def eval_nat_numeral Lock_def
      Unlock_def close_chan_def conn_Write_def conn_Close_def Let_def)

text \<open>
  Ten steps are enough: after them a call has returned or panicked, or it waits for a
  lock that is held, and further steps of the goroutine on its own change nothing.
\<close>

lemma exec_add: "exec (m + n) t s = (case exec m t s of (t', s') \<Rightarrow> exec n t' s')"
  by (induction m arbitrary: t s) (simp_all split: prod.splits)

subsection \<open>Goroutines running together\<close>

lemma step_mono:
  "step t s = (t', s') \<Longrightarrow>
   (closed s \<longrightarrow> closed s') \<and> (closedC s \<longrightarrow> closedC s') \<and>
   (closing (client s) \<longrightarrow> closing (client s')) \<and>
   wr_error (conn s') = wr_error (conn s) \<and>
   streamYin s' = streamYin s \<and> streamYang s' = streamYang s \<and> bp s' = bp s"
  by (cases "(t, s)" rule: step.cases)
    (auto simp: Lock_def Unlock_def close_chan_def conn_Close_def conn_Write_def
      Client_Close_def Let_def split: option.splits if_splits)

lemma follows_mono:
  "follows s0 t0 t s \<Longrightarrow> (closed s \<longrightarrow> closed s') \<Longrightarrow> (closedC s \<longrightarrow> closedC s') \<Longrightarrow>
   (closing (client s) \<longrightarrow> closing (client s')) \<Longrightarrow> follows s0 t0 t s'"
  by (cases "(s0, t0, t, s)" rule: follows.cases) auto

lemma holds_resume [simp]:
  "\<not> holds_closeLock (resume c)"
  "holds_writeLock (resume c) = from_write c"
  by (cases c; simp)+

text \<open>The lock discipline of one step.\<close>

lemma step_closeLock:
  assumes "step t s = (t', s')" and "t' \<noteq> Panicked"
  shows "(if holds_closeLock t
          then (if holds_closeLock t' then closeLock s' = closeLock s else \<not> closeLock s')
          else (if holds_closeLock t' then \<not> closeLock s \<and> closeLock s'
                else closeLock s' = closeLock s))"
  using assms
  by (cases "(t, s)" rule: step.cases)
    (auto simp: Lock_def Unlock_def close_chan_def Let_def
      split: option.splits if_splits prod.splits)

lemma step_writeLock:
  assumes "step t s = (t', s')" and "t' \<noteq> Panicked"
  shows "(if holds_writeLock t
          then (if holds_writeLock t' then writeLock s' = writeLock s else \<not> writeLock s')
          else (if holds_writeLock t' then \<not> writeLock s \<and> writeLock s'
                else writeLock s' = writeLock s))"
  using assms
  by (cases "(t, s)" rule: step.cases)
    (auto simp: Lock_def Unlock_def close_chan_def Let_def
      split: option.splits if_splits prod.splits)

lemma lock_ok_step:
  assumes "lock_ok l H"
    and "if i \<in> H
         then (if h' then l' = l else \<not> l')
         else (if h' then \<not> l \<and> l' else l' = l)"
  shows "lock_ok l' (if h' then insert i H else H - {i})"
  using assms by (auto simp: lock_ok_def split: if_splits)

lemma lock_ok_unique: "lock_ok l H \<Longrightarrow> i \<in> H \<Longrightarrow> j \<in> H \<Longrightarrow> j = i \<and> l"
  by (auto simp: lock_ok_def split: if_splits)

lemma lock_ok_free: "lock_ok l H \<Longrightarrow> \<not> l \<Longrightarrow> i \<notin> H"
  by (auto simp: lock_ok_def split: if_splits)

lemma holders_upd:
  "{j. P ((ts(i := t')) j)} = (if P t' then insert i {j. P (ts j)} else {j. P (ts j)} - {i})"
  by auto


lemma step_close_state:
  "\<not> holds_closeLock t \<Longrightarrow> step t s = (t', s') \<Longrightarrow> close_state s' = close_state s"
  by (cases "(t, s)" rule: step.cases)
    (auto simp: close_state_def Lock_def Unlock_def conn_Write_def Let_def
      split: option.splits if_splits)

lemma quiet_cong: "close_state s' = close_state s \<Longrightarrow> quiet s0 s' = quiet s0 s"
  by (simp add: quiet_def close_state_def)

lemma phase_ok_cong: "close_state s' = close_state s \<Longrightarrow> phase_ok s0 pc s' = phase_ok s0 pc s"
  by (cases pc) (auto simp: quiet_def close_state_def)

text \<open>A goroutine takes the close lock on a quiet session.\<close>

lemma step_acquire:
  assumes "step (In_doClose err DC_Lock c) s = (t', s')" and "holds_closeLock t'"
    and "quiet s0 s"
  shows "t' = In_doClose err DC_Check c \<and> phase_ok s0 DC_Check s'"
  using assms by (auto simp: Lock_def quiet_def split: if_splits)

text \<open>
  The goroutine inside \<^verbatim>\<open>doClose\<close> moves the session from one phase to the next,
  never panics, and leaves \<^verbatim>\<open>doClose\<close> on a quiet and closed session.
\<close>

lemma step_phase:
  assumes "step (In_doClose err pc c) s = (t', s')" and "pc \<noteq> DC_Lock"
    and "phase_ok s0 pc s" and "closed s0 \<longrightarrow> closed s"
  shows "t' \<noteq> Panicked \<and>
         (\<forall>err' pc' c'. t' = In_doClose err' pc' c' \<longrightarrow>
            err' = err \<and> c' = c \<and> pc' \<noteq> DC_Lock \<and> phase_ok s0 pc' s') \<and>
         (\<not> holds_closeLock t' \<longrightarrow>
            t' = resume c \<and> quiet s0 s' \<and> closed s' \<and> closedC s' \<and> closing (client s'))"
  using assms
  by (cases pc; cases c)
    (auto simp: quiet_def close_chan_def conn_Close_def Client_Close_def Unlock_def
      split: if_splits)

lemma follows_step:
  assumes "follows s0 t0 t s" and "step t s = (t', s')"
    and "wr_error (conn s) = wr_error (conn s0)" and "t' \<noteq> Panicked"
    and "holds_closeLock t \<and> \<not> holds_closeLock t' \<longrightarrow>
           closed s' \<and> closedC s' \<and> closing (client s')"
  shows "follows s0 t0 t' s'"
proof -
  note m = step_mono [OF assms(2)]
  from m have mono: "closed s \<longrightarrow> closed s'" "closedC s \<longrightarrow> closedC s'"
    "closing (client s) \<longrightarrow> closing (client s')"
    by simp_all
  show ?thesis
  proof (cases t)
    case (In_doClose err pc c)
    with assms(1,2,4,5) mono show ?thesis
      by (cases "(s0, t0, t, s)" rule: follows.cases; cases pc)
        (auto simp: Lock_def close_chan_def split: if_splits option.splits)
  next
    case (Write_Lock bytes)
    with assms(1,2) show ?thesis
      by (cases "(s0, t0, t, s)" rule: follows.cases)
        (auto simp: Lock_def split: if_splits)
  next
    case (Write_conn bytes)
    with assms(1) have t0: "t0 = Write_Lock bytes"
      by (cases "(s0, t0, t, s)" rule: follows.cases) auto
    show ?thesis
    proof (cases "wr_error (conn s0)")
      case None
      with assms(2,3) Write_conn have "t' = Write_Unlock None"
        by (simp add: conn_Write_def)
      with None t0 show ?thesis by simp
    next
      case (Some e)
      with assms(2,3) Write_conn
      have "t' = In_doClose (Some (Errorf ''write error: '' (Some e))) DC_Lock
          (From_write (Some e))"
        by (simp add: conn_Write_def)
      with Some t0 show ?thesis by simp
    qed
  next
    case (Write_Unlock err)
    with assms(2) have t': "t' = Returned err"
      by simp
    from assms(1) Write_Unlock mono show ?thesis
      unfolding t' by (cases "(s0, t0, t, s)" rule: follows.cases) auto
  next
    case (Returned err)
    with assms(2) have "t' = t"
      by simp
    with assms(1) mono show ?thesis
      by (simp add: follows_mono)
  next
    case Panicked
    with assms show ?thesis by simp
  qed
qed


lemma step_panic:
  "step t s = (Panicked, s') \<Longrightarrow> t = Panicked \<or> holds_closeLock t"
  by (cases "(t, s)" rule: step.cases)
    (auto simp: Lock_def Let_def split: option.splits if_splits prod.splits elim: resume.elims)

lemma step_enter:
  "\<not> holds_closeLock t \<Longrightarrow> step t s = (In_doClose err' pc' c', s') \<Longrightarrow>
   pc' = DC_Lock \<or> pc' = DC_Check \<and> t = In_doClose err' DC_Lock c' \<and> \<not> closeLock s"
  by (cases "(t, s)" rule: step.cases)
    (auto simp: Lock_def Let_def split: option.splits if_splits prod.splits elim: resume.elims)

lemma cfg_inv_step:
  assumes inv: "cfg_inv s0 ts0 (ts, s)"
  shows "cfg_inv s0 ts0 (sched_step i (ts, s))"
proof -
  obtain t' s' where st: "step (ts i) s = (t', s')"
    by (cases "step (ts i) s")
  then have ss: "sched_step i (ts, s) = (ts(i := t'), s')"
    by (simp add: sched_step_def)
  from inv have np: "\<And>j. ts j \<noteq> Panicked"
    and fo: "\<And>j. follows s0 (ts0 j) (ts j) s"
    and cl: "lock_ok (closeLock s) {j. holds_closeLock (ts j)}"
    and wl: "lock_ok (writeLock s) {j. holds_writeLock (ts j)}"
    and qu: "(\<forall>j. \<not> holds_closeLock (ts j)) \<Longrightarrow> quiet s0 s"
    and mo: "closed s0 \<longrightarrow> closed s"
    and we: "wr_error (conn s) = wr_error (conn s0)"
    and fr: "streamYin s = streamYin s0" "streamYang s = streamYang s0" "bp s = bp s0"
    by (simp_all add: cfg_inv_def)
  from inv have ph: "\<And>j err pc c. ts j = In_doClose err pc c \<Longrightarrow> phase_ok s0 pc s"
    unfolding cfg_inv_def fst_conv snd_conv by blast
  note m = step_mono [OF st]
  have alone: "j = i" if "holds_closeLock (ts i)" and "holds_closeLock (ts j)" for j
    using lock_ok_unique [OF cl, of i j] that by simp
  have free: "\<forall>j. \<not> holds_closeLock (ts j)" if "\<not> closeLock s"
    using lock_ok_free [OF cl that] by simp
  have mine: "t' \<noteq> Panicked \<and>
      (\<forall>err' pc' c'. t' = In_doClose err' pc' c' \<longrightarrow> phase_ok s0 pc' s') \<and>
      (holds_closeLock (ts i) \<and> \<not> holds_closeLock t' \<longrightarrow>
         closed s' \<and> closedC s' \<and> closing (client s') \<and> quiet s0 s')"
  proof (cases "holds_closeLock (ts i)")
    case True
    then obtain err pc c where ti: "ts i = In_doClose err pc c" and pc: "pc \<noteq> DC_Lock"
      by (cases "ts i") auto
    from step_phase [OF st [unfolded ti] pc ph [OF ti] mo] show ?thesis
      by auto
  next
    case False
    note cs = step_close_state [OF False st]
    from step_panic [of "ts i" s s'] st False np [of i] have "t' \<noteq> Panicked"
      by auto
    moreover have "phase_ok s0 pc' s'" if t': "t' = In_doClose err' pc' c'" for err' pc' c'
    proof -
      from step_enter [OF False st [unfolded t']]
      consider "pc' = DC_Lock" | "pc' = DC_Check" "\<not> closeLock s"
        by auto
      then show ?thesis
      proof cases
        case 1
        then show ?thesis by simp
      next
        case 2
        from qu [OF free [OF 2(2)]] 2(1) show ?thesis
          by (simp add: quiet_cong [OF cs])
      qed
    qed
    ultimately show ?thesis
      using False by simp
  qed
  have others: "phase_ok s0 pc s'" if "j \<noteq> i" and tj: "ts j = In_doClose err pc c"
    for j err pc c
  proof (cases "holds_closeLock (ts i)")
    case True
    with alone [of j] that have "pc = DC_Lock"
      by auto
    then show ?thesis by simp
  next
    case False
    from ph [OF tj] show ?thesis
      by (simp add: phase_ok_cong [OF step_close_state [OF False st]])
  qed
  have quiet': "quiet s0 s'" if nobody: "\<forall>j. \<not> holds_closeLock ((ts(i := t')) j)"
  proof (cases "holds_closeLock (ts i)")
    case True
    moreover from nobody have "\<not> holds_closeLock t'"
      by (auto dest: spec [of _ i])
    ultimately show ?thesis
      using mine by simp
  next
    case False
    have "\<not> holds_closeLock (ts j)" for j
    proof (cases "j = i")
      case True
      with False show ?thesis by simp
    next
      case ji: False
      with nobody [rule_format, of j] show ?thesis by simp
    qed
    then have "\<forall>j. \<not> holds_closeLock (ts j)"
      by simp
    from qu [OF this] show ?thesis
      by (simp add: quiet_cong [OF step_close_state [OF False st]])
  qed
  have cl': "lock_ok (closeLock s') {j. holds_closeLock ((ts(i := t')) j)}"
    unfolding holders_upd
  proof (rule lock_ok_step [OF cl])
    from lock_ok_unique [OF cl, of i i] have "holds_closeLock (ts i) \<Longrightarrow> closeLock s"
      by simp
    with step_closeLock [OF st] mine
    show "if i \<in> {j. holds_closeLock (ts j)}
         then (if holds_closeLock t' then closeLock s' = closeLock s else \<not> closeLock s')
         else (if holds_closeLock t' then \<not> closeLock s \<and> closeLock s'
               else closeLock s' = closeLock s)"
      by simp
  qed
  have wl': "lock_ok (writeLock s') {j. holds_writeLock ((ts(i := t')) j)}"
    unfolding holders_upd
  proof (rule lock_ok_step [OF wl])
    from step_writeLock [OF st] mine
    show "if i \<in> {j. holds_writeLock (ts j)}
         then (if holds_writeLock t' then writeLock s' = writeLock s else \<not> writeLock s')
         else (if holds_writeLock t' then \<not> writeLock s \<and> writeLock s'
               else writeLock s' = writeLock s)"
      by simp
  qed
  have fo': "follows s0 (ts0 j) ((ts(i := t')) j) s'" for j
  proof (cases "j = i")
    case True
    from follows_step [OF fo [of i] st we] mine True show ?thesis
      by simp
  next
    case False
    with follows_mono [OF fo [of j]] m show ?thesis
      by simp
  qed
  have np': "(ts(i := t')) j \<noteq> Panicked" for j
    using np [of j] mine by simp
  have ph': "phase_ok s0 pc s'" if "(ts(i := t')) j = In_doClose err pc c" for j err pc c
  proof (cases "j = i")
    case True
    with that mine show ?thesis by simp
  next
    case False
    with that others [of j err pc c] show ?thesis by simp
  qed
  from m mo we fr have rest: "closed s0 \<longrightarrow> closed s'" "wr_error (conn s') = wr_error (conn s0)"
    "streamYin s' = streamYin s0" "streamYang s' = streamYang s0" "bp s' = bp s0"
    by simp_all
  show ?thesis
    unfolding ss cfg_inv_def fst_conv snd_conv
    using np' fo' cl' wl' ph' quiet' rest by blast
qed

lemma cfg_inv_run: "cfg_inv s0 ts0 cfg \<Longrightarrow> cfg_inv s0 ts0 (run sched cfg)"
  unfolding run_def
proof (induction sched arbitrary: cfg)
  case Nil
  then show ?case by simp
next
  case (Cons i sched)
  from cfg_inv_step [of s0 ts0 "fst cfg" "snd cfg" i] Cons.prems
  have "cfg_inv s0 ts0 (sched_step i cfg)"
    by simp
  from Cons.IH [OF this] show ?case
    by simp
qed

lemma cfg_inv_start:
  assumes "closedC s0 = closed s0" and "closed s0 \<longrightarrow> closing (client s0)"
    and "\<not> closeLock s0" and "\<not> writeLock s0" and "\<forall>i. call_start (ts0 i)"
  shows "cfg_inv s0 ts0 (ts0, s0)"
proof -
  have start: "\<not> holds_closeLock t \<and> \<not> holds_writeLock t \<and> t \<noteq> Panicked \<and>
      follows s0 t t s0 \<and> (\<forall>err pc c. t = In_doClose err pc c \<longrightarrow> pc = DC_Lock)"
    if "call_start t" for t
    using that by (cases t rule: call_start.cases) auto
  with assms(5) have a: "\<And>i. \<not> holds_closeLock (ts0 i)" "\<And>i. \<not> holds_writeLock (ts0 i)"
    "\<And>i. ts0 i \<noteq> Panicked" "\<And>i. follows s0 (ts0 i) (ts0 i) s0"
    by auto
  have b: "phase_ok s0 pc s0" if "ts0 i = In_doClose err pc c" for i err pc c
  proof -
    from assms(5) [rule_format, of i] that have "pc = DC_Lock"
      by simp
    then show ?thesis by simp
  qed
  from assms(1-3) have q: "quiet s0 s0"
    by (simp add: quiet_def)
  from a(1,2) assms(3,4) have l: "lock_ok (closeLock s0) {i. holds_closeLock (ts0 i)}"
    "lock_ok (writeLock s0) {i. holds_writeLock (ts0 i)}"
    by (simp_all add: lock_ok_def)
  show ?thesis
    unfolding cfg_inv_def fst_conv snd_conv
    using a(3,4) b q l by blast
qed


lemma cfg_inv_reachable:
  assumes "session_inv s0" and "\<not> closeLock s0" and "\<not> writeLock s0"
    and "\<forall>i. call_start (ts0 i)"
  shows "cfg_inv s0 ts0 (run sched (ts0, s0))"
  using assms by (intro cfg_inv_run cfg_inv_start) (simp_all add: session_inv_def)

lemma cfg_inv_close_calls:
  assumes "cfg_inv s0 ts0 (ts, s)"
  shows "close_calls (conn s) = close_calls (conn s0) \<or>
         \<not> closed s0 \<and> close_calls (conn s) = Suc (close_calls (conn s0))"
proof (cases "\<forall>i. \<not> holds_closeLock (ts i)")
  case True
  with assms have "quiet s0 s"
    by (simp add: cfg_inv_def)
  then show ?thesis
    by (auto simp: quiet_def split: if_splits)
next
  case False
  then obtain i where "holds_closeLock (ts i)"
    by blast
  then obtain err pc c where "ts i = In_doClose err pc c" and pc: "pc \<noteq> DC_Lock"
    by (cases "ts i") auto
  with assms have "phase_ok s0 pc s" and "closed s0 \<longrightarrow> closed s"
    unfolding cfg_inv_def fst_conv snd_conv by blast+
  with pc show ?thesis
    by (cases pc) (auto simp: quiet_def split: if_splits)
qed

lemma cfg_inv_quiet:
  assumes "cfg_inv s0 ts0 (ts, s)" and "session_inv s0" and "\<forall>i. \<not> holds_closeLock (ts i)"
  shows "session_inv s \<and> \<not> closeLock s"
proof -
  from assms(1,3) have "quiet s0 s" and "lock_ok (closeLock s) {i. holds_closeLock (ts i)}"
    and "closed s0 \<longrightarrow> closed s"
    and "streamYin s = streamYin s0" "streamYang s = streamYang s0"
    by (simp_all add: cfg_inv_def)
  with assms(2,3) show ?thesis
    by (auto simp: quiet_def lock_ok_def session_inv_def split: if_splits)
qed

lemma parked:
  "closeLock s \<Longrightarrow> ts i = In_doClose err DC_Lock c \<Longrightarrow> sched_step i (ts, s) = (ts, s)"
  "writeLock s \<Longrightarrow> ts i = Write_Lock bytes \<Longrightarrow> sched_step i (ts, s) = (ts, s)"
  by (simp_all add: sched_step_def Lock_def fun_upd_idem_iff)

lemma step_wr_written:
  "step t s = (t', s') \<Longrightarrow> wr_written (conn s') \<noteq> wr_written (conn s) \<Longrightarrow>
   \<exists>bytes. t = Write_conn bytes"
  by (cases "(t, s)" rule: step.cases)
    (auto simp: Lock_def Unlock_def close_chan_def conn_Close_def Let_def
      split: option.splits if_splits)

lemma exec_settled:
  "call_start t \<Longrightarrow> exec 10 t s = (t', s') \<Longrightarrow> step t' s' = (t', s')"
  by (cases t rule: call_start.cases; cases "closeLock s"; cases "closed s"; cases "closedC s";
      cases "writeLock s"; cases "wr_error (conn s)")
    (auto simp: eval_nat_numeral Lock_def Unlock_def close_chan_def conn_Write_def Let_def)

lemma exec_fixpoint: "step t s = (t, s) \<Longrightarrow> exec n t s = (t, s)"
  by (induction n) simp_all

lemma exec_enough: "call_start t \<Longrightarrow> exec (10 + n) t s = exec 10 t s"
  using exec_settled [of t s "fst (exec 10 t s)" "snd (exec 10 t s)"]
  by (simp add: exec_add split_beta exec_fixpoint)

lemma cfg_inv_closed:
  assumes "cfg_inv s0 ts0 (ts, s)" and "session_inv s0" and "closed s0"
  shows "close_state s = close_state s0"
proof -
  from assms(1,3) have c: "closed s"
    by (simp add: cfg_inv_def)
  have "quiet s0 s"
  proof (cases "\<forall>i. \<not> holds_closeLock (ts i)")
    case True
    with assms(1) show ?thesis
      by (simp add: cfg_inv_def)
  next
    case False
    then obtain i where "holds_closeLock (ts i)"
      by blast
    then obtain err pc c where "ts i = In_doClose err pc c" and pc: "pc \<noteq> DC_Lock"
      by (cases "ts i") auto
    with assms(1) have "phase_ok s0 pc s"
      unfolding cfg_inv_def fst_conv snd_conv by blast
    with pc c assms(3) show ?thesis
      by (cases pc) auto
  qed
  with c assms(2,3) show ?thesis
    by (simp add: quiet_def close_state_def session_inv_def)
qed

lemma cfg_invD:
  assumes "cfg_inv s0 ts0 (ts, s)"
  shows "ts i \<noteq> Panicked" and "follows s0 (ts0 i) (ts i) s"
    and "lock_ok (closeLock s) {j. holds_closeLock (ts j)}"
    and "lock_ok (writeLock s) {j. holds_writeLock (ts j)}"
    and "wr_error (conn s) = wr_error (conn s0)"
  using assms unfolding cfg_inv_def fst_conv snd_conv by blast+

lemma close_state_under_lock:
  assumes "cfg_inv s0 ts0 (ts, s)" and "step (ts i) s = (t', s')"
    and "close_state s' \<noteq> close_state s"
  shows "closeLock s \<and> holds_closeLock (ts i) \<and> (\<forall>j. holds_closeLock (ts j) \<longrightarrow> j = i)"
proof -
  from step_close_state [OF _ assms(2)] assms(3) have h: "holds_closeLock (ts i)"
    by blast
  have "j = i \<and> closeLock s" if "holds_closeLock (ts j)" for j
    using lock_ok_unique [OF cfg_invD(3) [OF assms(1)], of i j] h that
    by simp
  with h show ?thesis
    by blast
qed

lemma closer_returned:
  assumes "cfg_inv s0 ts0 (ts, s)" and "call_start (ts0 i)" and "ts i = Returned e"
    and "\<forall>bytes. ts0 i \<noteq> Write_Lock bytes"
  shows "e = None \<and> closed s \<and> closedC s \<and> closing (client s)"
  using cfg_invD(2) [OF assms(1), of i] assms(2-4)
  by (cases "ts0 i" rule: call_start.cases) auto

section \<open>Close lifecycle\<close>

lemma doClose_closed:
  "closed s \<Longrightarrow> \<not> closeLock s \<Longrightarrow> doClose err s = Returns s"
  by (simp add: doClose_unfold Lock_def Unlock_def)

lemma doClose_open:
  "\<not> closed s \<Longrightarrow> \<not> closedC s \<Longrightarrow> \<not> closeLock s \<Longrightarrow>
   doClose err s =
     Returns (s\<lparr>closed := True, closedC := True, conn := conn_Close (conn s),
               client := (client s)\<lparr>closing := True\<rparr>\<rparr>)"
  by (cases "closing (client s)")
    (simp_all add: doClose_unfold Lock_def Unlock_def close_chan_def Client_Close_def Let_def)

lemma doClose_locked: "closeLock s \<Longrightarrow> doClose err s = Blocks"
  by (simp add: doClose_unfold Lock_def)

lemma doClose_inv:
  assumes "session_inv s" and "doClose err s = Returns s'"
  shows "session_inv s' \<and> closed s'"
proof (cases "closeLock s")
  case True
  with assms(2) show ?thesis by (simp add: doClose_locked)
next
  case False
  show ?thesis
  proof (cases "closed s")
    case True
    with False assms show ?thesis by (simp add: doClose_closed)
  next
    case notclosed: False
    with assms(1) have "\<not> closedC s" by (simp add: session_inv_def)
    with notclosed False assms show ?thesis
      by (auto simp add: doClose_open session_inv_def conn_Close_def)
  qed
qed

lemma doClose_no_panic: "closedC s = closed s \<Longrightarrow> doClose err s \<noteq> Panics"
  by (simp add: doClose_unfold Lock_def close_chan_def Let_def)

text \<open>
  C1. On a session whose close lock is free, \<^verbatim>\<open>Close\<close> returns nil. If the session
  was open, the call sets the closed flag, closes the cancellation channel, calls
  \<^verbatim>\<open>Close\<close> on the connection once and closes the RPC client; if it was closed
  already, the call changes nothing. An internal \<^verbatim>\<open>doClose\<close> with an error does the
  same to the session. After the first close, every further \<^verbatim>\<open>Close\<close> and every
  internal \<^verbatim>\<open>doClose\<close> returns and changes nothing, and a call that arrives while
  another one holds the close lock waits for it.

  When any number of calls of \<^verbatim>\<open>Close\<close>, \<^verbatim>\<open>doClose\<close> and \<^verbatim>\<open>write\<close> run together
  on the session, in any order of their steps: no goroutine panics; a step that changes
  the closed flag, the cancellation channel, the connection's close count or the RPC
  client is taken with the close lock held, by the one goroutine that is between the
  \<^verbatim>\<open>Lock\<close> and the \<^verbatim>\<open>Unlock\<close> of \<^verbatim>\<open>doClose\<close>; the connection is closed at most
  once, and not at all on a session that was closed already, where nothing of the
  close state changes; a call that arrives at the held close lock stays there; every
  \<^verbatim>\<open>Close\<close> and \<^verbatim>\<open>doClose\<close> that has returned returned nil on a closed session; and
  whenever no goroutine is inside \<^verbatim>\<open>doClose\<close>, the close lock is free and the session
  is again one that the functions of the file produce.
\<close>

theorem Close_idempotent:
  assumes "session_inv s" and "\<not> closeLock s"
  shows "(\<exists>s'. Close s = Returns (None, s')
           \<and> closed s' \<and> closedC s' \<and> closing (client s') \<and> \<not> closeLock s'
           \<and> (if closed s then s' = s
               else s' = s\<lparr>closed := True, closedC := True, conn := conn_Close (conn s),
                           client := (client s)\<lparr>closing := True\<rparr>\<rparr>)
           \<and> session_inv s'
           \<and> (\<forall>err. doClose err s = Returns s')
           \<and> Close s' = Returns (None, s')
           \<and> (\<forall>err. doClose err s' = Returns s')
           \<and> (\<forall>err. doClose err (s\<lparr>closeLock := True\<rparr>) = Blocks))
       \<and> (\<forall>ts0 sched ts sc.
            \<not> writeLock s \<and> (\<forall>i. call_start (ts0 i)) \<and> run sched (ts0, s) = (ts, sc) \<longrightarrow>
              (\<forall>i. ts i \<noteq> Panicked)
            \<and> (\<forall>i t' s''. step (ts i) sc = (t', s'') \<and> close_state s'' \<noteq> close_state sc \<longrightarrow>
                  closeLock sc \<and> holds_closeLock (ts i) \<and>
                  (\<forall>j. holds_closeLock (ts j) \<longrightarrow> j = i))
            \<and> (close_calls (conn sc) = close_calls (conn s) \<or>
                 \<not> closed s \<and> close_calls (conn sc) = Suc (close_calls (conn s)))
            \<and> (closed s \<longrightarrow> close_state sc = close_state s)
            \<and> (\<forall>i err c. ts i = In_doClose err DC_Lock c \<and> closeLock sc \<longrightarrow>
                  sched_step i (ts, sc) = (ts, sc))
            \<and> (\<forall>i e. ts i = Returned e \<and> (\<forall>bytes. ts0 i \<noteq> Write_Lock bytes) \<longrightarrow>
                  e = None \<and> closed sc \<and> closedC sc \<and> closing (client sc))
            \<and> ((\<forall>i. \<not> holds_closeLock (ts i)) \<longrightarrow> session_inv sc \<and> \<not> closeLock sc))"
proof (rule conjI)
  show "\<exists>s'. Close s = Returns (None, s')
           \<and> closed s' \<and> closedC s' \<and> closing (client s') \<and> \<not> closeLock s'
           \<and> (if closed s then s' = s
               else s' = s\<lparr>closed := True, closedC := True, conn := conn_Close (conn s),
                           client := (client s)\<lparr>closing := True\<rparr>\<rparr>)
           \<and> session_inv s'
           \<and> (\<forall>err. doClose err s = Returns s')
           \<and> Close s' = Returns (None, s')
           \<and> (\<forall>err. doClose err s' = Returns s')
           \<and> (\<forall>err. doClose err (s\<lparr>closeLock := True\<rparr>) = Blocks)"
  proof (cases "closed s")
    case True
    with assms show ?thesis
      by (simp add: Close_unfold doClose_closed doClose_locked session_inv_def)
  next
    case False
    with assms have "\<not> closedC s" by (simp add: session_inv_def)
    with False assms show ?thesis
      by (simp add: Close_unfold doClose_closed doClose_open doClose_locked session_inv_def
          conn_Close_def)
  qed
next
  show "\<forall>ts0 sched ts sc.
            \<not> writeLock s \<and> (\<forall>i. call_start (ts0 i)) \<and> run sched (ts0, s) = (ts, sc) \<longrightarrow>
              (\<forall>i. ts i \<noteq> Panicked)
            \<and> (\<forall>i t' s''. step (ts i) sc = (t', s'') \<and> close_state s'' \<noteq> close_state sc \<longrightarrow>
                  closeLock sc \<and> holds_closeLock (ts i) \<and>
                  (\<forall>j. holds_closeLock (ts j) \<longrightarrow> j = i))
            \<and> (close_calls (conn sc) = close_calls (conn s) \<or>
                 \<not> closed s \<and> close_calls (conn sc) = Suc (close_calls (conn s)))
            \<and> (closed s \<longrightarrow> close_state sc = close_state s)
            \<and> (\<forall>i err c. ts i = In_doClose err DC_Lock c \<and> closeLock sc \<longrightarrow>
                  sched_step i (ts, sc) = (ts, sc))
            \<and> (\<forall>i e. ts i = Returned e \<and> (\<forall>bytes. ts0 i \<noteq> Write_Lock bytes) \<longrightarrow>
                  e = None \<and> closed sc \<and> closedC sc \<and> closing (client sc))
            \<and> ((\<forall>i. \<not> holds_closeLock (ts i)) \<longrightarrow> session_inv sc \<and> \<not> closeLock sc)"
  proof (intro allI impI, elim conjE)
    fix ts0 sched ts sc
    assume wfree: "\<not> writeLock s" and start: "\<forall>i. call_start (ts0 i)"
      and run: "run sched (ts0, s) = (ts, sc)"
    from cfg_inv_reachable [OF assms wfree start, of sched] run
    have inv: "cfg_inv s ts0 (ts, sc)"
      by simp
    have c1: "\<forall>i. ts i \<noteq> Panicked"
      using cfg_invD(1) [OF inv] by (rule allI)
    have c2: "\<forall>i t' s''. step (ts i) sc = (t', s'') \<and> close_state s'' \<noteq> close_state sc \<longrightarrow>
                  closeLock sc \<and> holds_closeLock (ts i) \<and>
                  (\<forall>j. holds_closeLock (ts j) \<longrightarrow> j = i)"
    proof (intro allI impI, elim conjE)
      fix i t' s''
      assume "step (ts i) sc = (t', s'')" and "close_state s'' \<noteq> close_state sc"
      with inv show "closeLock sc \<and> holds_closeLock (ts i) \<and>
                  (\<forall>j. holds_closeLock (ts j) \<longrightarrow> j = i)"
        by (rule close_state_under_lock)
    qed
    have c3: "close_calls (conn sc) = close_calls (conn s) \<or>
                 \<not> closed s \<and> close_calls (conn sc) = Suc (close_calls (conn s))"
      using inv by (rule cfg_inv_close_calls)
    have c4: "closed s \<longrightarrow> close_state sc = close_state s"
      using cfg_inv_closed [OF inv assms(1)] by (rule impI)
    have c5: "\<forall>i err c. ts i = In_doClose err DC_Lock c \<and> closeLock sc \<longrightarrow>
                  sched_step i (ts, sc) = (ts, sc)"
    proof (intro allI impI, elim conjE)
      fix i err c
      assume "ts i = In_doClose err DC_Lock c" and "closeLock sc"
      then show "sched_step i (ts, sc) = (ts, sc)"
        by (simp add: parked(1))
    qed
    have c6: "\<forall>i e. ts i = Returned e \<and> (\<forall>bytes. ts0 i \<noteq> Write_Lock bytes) \<longrightarrow>
                  e = None \<and> closed sc \<and> closedC sc \<and> closing (client sc)"
    proof (intro allI impI, elim conjE)
      fix i e
      assume "ts i = Returned e" and "\<forall>bytes. ts0 i \<noteq> Write_Lock bytes"
      with inv start [rule_format, of i]
      show "e = None \<and> closed sc \<and> closedC sc \<and> closing (client sc)"
        by (rule closer_returned)
    qed
    have c7: "(\<forall>i. \<not> holds_closeLock (ts i)) \<longrightarrow> session_inv sc \<and> \<not> closeLock sc"
      using cfg_inv_quiet [OF inv assms(1)] by (rule impI)
    show "(\<forall>i. ts i \<noteq> Panicked)
            \<and> (\<forall>i t' s''. step (ts i) sc = (t', s'') \<and> close_state s'' \<noteq> close_state sc \<longrightarrow>
                  closeLock sc \<and> holds_closeLock (ts i) \<and>
                  (\<forall>j. holds_closeLock (ts j) \<longrightarrow> j = i))
            \<and> (close_calls (conn sc) = close_calls (conn s) \<or>
                 \<not> closed s \<and> close_calls (conn sc) = Suc (close_calls (conn s)))
            \<and> (closed s \<longrightarrow> close_state sc = close_state s)
            \<and> (\<forall>i err c. ts i = In_doClose err DC_Lock c \<and> closeLock sc \<longrightarrow>
                  sched_step i (ts, sc) = (ts, sc))
            \<and> (\<forall>i e. ts i = Returned e \<and> (\<forall>bytes. ts0 i \<noteq> Write_Lock bytes) \<longrightarrow>
                  e = None \<and> closed sc \<and> closedC sc \<and> closing (client sc))
            \<and> ((\<forall>i. \<not> holds_closeLock (ts i)) \<longrightarrow> session_inv sc \<and> \<not> closeLock sc)"
      by (intro conjI c1 c2 c3 c4 c5 c6 c7)
  qed
qed

theorem Close_idempotent_witness:
  "session_inv (example_session True 0) \<and> \<not> closeLock (example_session True 0) \<and>
   \<not> writeLock (example_session True 0) \<and> (\<forall>i. call_start (closers i)) \<and>
   (\<exists>s'. Close (example_session True 0) = Returns (None, s') \<and> closed s' \<and>
         close_calls (conn s') = 1 \<and> Close s' = Returns (None, s')) \<and>
   (\<exists>ts sc. run close_schedule (closers, example_session True 0) = (ts, sc) \<and>
         ts 0 = Returned None \<and> ts 1 = Returned None \<and>
         closed sc \<and> closedC sc \<and> closing (client sc) \<and> close_calls (conn sc) = 1 \<and>
         session_inv sc \<and> \<not> closeLock sc) \<and>
   (\<exists>ts sc. run (take 2 close_schedule) (closers, example_session True 0) = (ts, sc) \<and>
         closeLock sc \<and> ts 0 = In_doClose None DC_Check From_Close \<and> ts 1 = closers 1 \<and>
         sched_step 1 (ts, sc) = (ts, sc))"
proof -
  have h1: "session_inv (example_session True 0)"
    by (rule example_session_inv)
  have h2: "\<not> closeLock (example_session True 0)"
    by (simp add: example_session_def)
  have h3: "\<not> closed (example_session True 0)"
    by (simp add: example_session_def)
  have h4: "close_calls (conn (example_session True 0)) = 0"
    by (simp add: example_session_def example_conn_def)
  have h5: "\<not> writeLock (example_session True 0)"
    by (simp add: example_session_def)
  have h6: "\<forall>i. call_start (closers i)"
    by (simp add: closers_def)
  note ci = Close_idempotent [OF h1 h2]
  from ci obtain s' where
    s': "Close (example_session True 0) = Returns (None, s')" "closed s'"
      "if closed (example_session True 0) then s' = example_session True 0
       else s' = (example_session True 0)\<lparr>closed := True, closedC := True,
              conn := conn_Close (conn (example_session True 0)),
              client := (client (example_session True 0))\<lparr>closing := True\<rparr>\<rparr>"
      "Close s' = Returns (None, s')"
    by blast
  from s'(3) h3 h4 have "close_calls (conn s') = 1"
    by (simp add: conn_Close_def)
  with s' have alone: "\<exists>s'. Close (example_session True 0) = Returns (None, s') \<and> closed s' \<and>
         close_calls (conn s') = 1 \<and> Close s' = Returns (None, s')"
    by blast
  define ts where "ts = fst (run close_schedule (closers, example_session True 0))"
  define sc where "sc = snd (run close_schedule (closers, example_session True 0))"
  have r: "run close_schedule (closers, example_session True 0) = (ts, sc)"
    by (simp add: ts_def sc_def)
  have t0: "ts 0 = Returned None" and t1: "ts 1 = Returned None"
    and nobody: "\<forall>i. \<not> holds_closeLock (ts i)"
    by (simp_all add: ts_def run_def close_schedule_def sched_step_def closers_def
        example_session_def Lock_def Unlock_def close_chan_def)
  have nw: "\<forall>bytes. closers 0 \<noteq> Write_Lock bytes"
    by (simp add: closers_def)
  from ci h5 h6 r
  have together: "(close_calls (conn sc) = close_calls (conn (example_session True 0)) \<or>
         \<not> closed (example_session True 0) \<and>
         close_calls (conn sc) = Suc (close_calls (conn (example_session True 0))))"
      "\<forall>i e. ts i = Returned e \<and> (\<forall>bytes. closers i \<noteq> Write_Lock bytes) \<longrightarrow>
             e = None \<and> closed sc \<and> closedC sc \<and> closing (client sc)"
      "(\<forall>i. \<not> holds_closeLock (ts i)) \<longrightarrow> session_inv sc \<and> \<not> closeLock sc"
    by blast+
  from together(2) t0 nw have cl: "closed sc \<and> closedC sc \<and> closing (client sc)"
    by blast
  from together(3) nobody have q: "session_inv sc \<and> \<not> closeLock sc"
    by blast
  with cl have "0 < close_calls (conn sc)"
    by (simp add: session_inv_def)
  with together(1) h4 have once: "close_calls (conn sc) = 1"
    by simp
  from r t0 t1 cl once q
  have all: "\<exists>ts sc. run close_schedule (closers, example_session True 0) = (ts, sc) \<and>
         ts 0 = Returned None \<and> ts 1 = Returned None \<and>
         closed sc \<and> closedC sc \<and> closing (client sc) \<and> close_calls (conn sc) = 1 \<and>
         session_inv sc \<and> \<not> closeLock sc"
    by blast
  define tp where "tp = fst (run (take 2 close_schedule) (closers, example_session True 0))"
  define sp where "sp = snd (run (take 2 close_schedule) (closers, example_session True 0))"
  have rp: "run (take 2 close_schedule) (closers, example_session True 0) = (tp, sp)"
    by (simp add: tp_def sp_def)
  have p0: "tp 0 = In_doClose None DC_Check From_Close" and p1: "tp 1 = closers 1"
    and pl: "closeLock sp"
    by (simp_all add: tp_def sp_def run_def close_schedule_def sched_step_def closers_def
        example_session_def Lock_def)
  have p1': "tp 1 = In_doClose (Some (Errorf ''read a invalid header'' None)) DC_Lock
      From_readLoop"
    using p1 by (simp add: closers_def)
  from ci h5 h6 rp
  have "\<forall>i err c. tp i = In_doClose err DC_Lock c \<and> closeLock sp \<longrightarrow>
                  sched_step i (tp, sp) = (tp, sp)"
    by blast
  with p1' pl have "sched_step 1 (tp, sp) = (tp, sp)"
    by blast
  with rp p0 p1 pl
  have parked: "\<exists>ts sc. run (take 2 close_schedule) (closers, example_session True 0) = (ts, sc) \<and>
         closeLock sc \<and> ts 0 = In_doClose None DC_Check From_Close \<and> ts 1 = closers 1 \<and>
         sched_step 1 (ts, sc) = (ts, sc)"
    by blast
  from h1 h2 h5 h6 alone all parked show ?thesis
    by (intro conjI)
qed

lemma Call_closed:
  "session_inv s \<Longrightarrow> closed s \<Longrightarrow> Call reply s = Returns (Some ErrShutdown)"
  by (simp add: Call_def Client_Call_def session_inv_def)

text \<open>
  C8. Once \<^verbatim>\<open>Close\<close> has returned, the RPC client is closing, so \<^verbatim>\<open>Call\<close> on the
  session returns the error \<^verbatim>\<open>ErrShutdown\<close> of a closed session whatever the peer
  would do with the call, and in particular does not block.
\<close>

theorem Call_after_Close:
  assumes "session_inv s" and "Close s = Returns (e, s')"
  shows "Call reply s' = Returns (Some ErrShutdown) \<and> closed s' \<and> session_inv s'"
proof -
  from assms(2) have "doClose None s = Returns s'"
    by (simp add: Close_unfold split: outcome.splits)
  with assms(1) have "session_inv s' \<and> closed s'"
    by (rule doClose_inv)
  then show ?thesis
    by (simp add: Call_closed)
qed

theorem Call_after_Close_witness:
  "session_inv (example_session True 0) \<and>
   (\<exists>e s'. Close (example_session True 0) = Returns (e, s') \<and>
           Call Blocks s' = Returns (Some ErrShutdown))"
proof -
  have h1: "session_inv (example_session True 0)"
    by (rule example_session_inv)
  have "\<exists>s'. Close (example_session True 0) = Returns (None, s')"
    by (simp add: Close_unfold doClose_open example_session_def)
  then obtain s' where h2: "Close (example_session True 0) = Returns (None, s')" ..
  from Call_after_Close [OF h1 h2, of Blocks] h1 h2 show ?thesis by blast
qed

section \<open>The reader loop\<close>

subsection \<open>What \<^verbatim>\<open>doClose\<close> leaves alone\<close>

lemma doClose_frame:
  "doClose err s = Returns s' \<Longrightarrow>
   bp s' = bp s \<and> streamYin s' = streamYin s \<and> streamYang s' = streamYang s \<and>
   writeLock s' = writeLock s \<and> yinOrYang s' = yinOrYang s \<and>
   rd_pending (conn s') = rd_pending (conn s) \<and> wr_written (conn s') = wr_written (conn s)"
  by (auto simp: doClose_unfold Lock_def Unlock_def close_chan_def conn_Close_def Let_def
      split: if_splits option.splits)

lemma doClose_returns:
  assumes "closedC s = closed s" and "\<not> closeLock s"
  shows "\<exists>s'. doClose err s = Returns s' \<and> closed s' \<and> closedC s'"
proof (cases "closed s")
  case True
  with assms show ?thesis by (simp add: doClose_closed)
next
  case False
  with assms show ?thesis by (simp add: doClose_open)
qed

lemma env_Close_frame:
  "bp (env_Close x s) = bp s \<and> streamYin (env_Close x s) = streamYin s \<and>
   streamYang (env_Close x s) = streamYang s \<and> writeLock (env_Close x s) = writeLock s \<and>
   rd_pending (conn (env_Close x s)) = rd_pending (conn s)"
  by (auto simp: env_Close_def Close_unfold dest: doClose_frame split: outcome.splits)

lemma env_Close_inv: "session_inv s \<Longrightarrow> session_inv (env_Close x s)"
  by (auto simp: env_Close_def Close_unfold dest: doClose_inv split: outcome.splits)

lemma doClose_closed_mono: "closed s \<Longrightarrow> doClose err s = Returns s' \<Longrightarrow> closed s'"
  by (auto simp: doClose_unfold Lock_def Unlock_def split: if_splits)

lemma env_Close_closed: "closed s \<Longrightarrow> closed (env_Close x s)"
  by (auto simp: env_Close_def Close_unfold dest: doClose_closed_mono split: outcome.splits)

lemma session_inv_frame:
  "session_inv s \<Longrightarrow> closedC s' = closedC s \<Longrightarrow> closed s' = closed s \<Longrightarrow>
   closing (client s') = closing (client s) \<Longrightarrow>
   close_calls (conn s') = close_calls (conn s) \<Longrightarrow>
   stream_type (streamYin s') = stream_type (streamYin s) \<Longrightarrow>
   stream_type (streamYang s') = stream_type (streamYang s) \<Longrightarrow> session_inv s'"
  by (simp add: session_inv_def)

lemma io_ReadFull_frame:
  "io_ReadFull n c = (r, c') \<Longrightarrow> close_calls c' = close_calls c"
  by (auto simp: io_ReadFull_def Let_def split: if_splits)

lemma io_Copy_frame:
  "io_Copy_LimitedReader b n c = (r, c') \<Longrightarrow> close_calls c' = close_calls c"
  by (auto simp: io_Copy_LimitedReader_def Let_def split: if_splits)

lemma io_Copy_buf_id:
  "io_Copy_LimitedReader b n c = ((body, e), c') \<Longrightarrow> buf_id body = buf_id b"
  by (auto simp: io_Copy_LimitedReader_def Let_def split: if_splits)

subsection \<open>The four ways through one iteration\<close>

lemma break_loop_Returns:
  "break_loop r = Returns (ctl, s') \<longleftrightarrow> ctl = BreakLoop \<and> r = Returns s'"
  by (auto simp: break_loop_def split: outcome.splits)

lemma select_cases:
  "select env cancelled =
     (if cancelled \<and> (\<not> recv_ready env \<or> \<not> pick_send env) then Some Case_closedC
      else if recv_ready env then Some Case_send
      else None)"
  by (simp add: select_def)

lemma readLoop_iter_header_error:
  "io_ReadFull 4 (conn s) = ((header, Some e), c) \<Longrightarrow>
   readLoop_iter dec env s =
     break_loop (doClose (Some (Errorf ''read header error: '' (Some e))) (s\<lparr>conn := c\<rparr>))"
  by (simp add: readLoop_iter_def)

lemma readLoop_iter_invalid:
  "io_ReadFull 4 (conn s) = ((header, None), c) \<Longrightarrow> dec header = (t, n) \<Longrightarrow>
   (t \<noteq> streamTypeYin \<and> t \<noteq> streamTypeYang) \<or> n \<le> 0 \<Longrightarrow>
   readLoop_iter dec env s =
     break_loop (doClose (Some (Errorf ''read a invalid header'' None)) (s\<lparr>conn := c\<rparr>))"
  by (simp add: readLoop_iter_def)

lemma readLoop_iter_body_error:
  "io_ReadFull 4 (conn s) = ((header, None), c) \<Longrightarrow> dec header = (t, n) \<Longrightarrow>
   t = streamTypeYin \<or> t = streamTypeYang \<Longrightarrow> 0 < n \<Longrightarrow>
   Get (bp s) = (b, p) \<Longrightarrow> io_Copy_LimitedReader b n c = ((body, Some e), c') \<Longrightarrow>
   readLoop_iter dec env s =
     break_loop (doClose (Some (Errorf ''read body error: '' (Some e)))
       (s\<lparr>conn := c', bp := Put body p\<rparr>))"
  by (auto simp add: readLoop_iter_def)

lemma readLoop_iter_select:
  "io_ReadFull 4 (conn s) = ((header, None), c) \<Longrightarrow> dec header = (t, n) \<Longrightarrow>
   t = streamTypeYin \<or> t = streamTypeYang \<Longrightarrow> 0 < n \<Longrightarrow>
   Get (bp s) = (b, p) \<Longrightarrow> io_Copy_LimitedReader b n c = ((body, None), c') \<Longrightarrow>
   readLoop_iter dec env s =
     (case select env (closedC (env_Close (ext_close env) (s\<lparr>bp := p, conn := c'\<rparr>))) of
        None \<Rightarrow> Blocks
      | Some Case_closedC \<Rightarrow>
          Returns (BreakLoop, env_Close (ext_close env) (s\<lparr>bp := p, conn := c'\<rparr>))
      | Some Case_send \<Rightarrow>
          Returns (Continue,
            chan_send (inC_of t) body (env_Close (ext_close env) (s\<lparr>bp := p, conn := c'\<rparr>))))"
  by (auto simp add: readLoop_iter_def inC_of_def streamTypeYin_def streamTypeYang_def Let_def
      split: option.splits select_case.splits)

lemma inC_of_cases: "inC_of t = Ptr_streamYin \<or> inC_of t = Ptr_streamYang"
  by (simp add: inC_of_def)

lemma queue_env_Close: "queue (env_Close x s) ptr = queue s ptr"
  by (cases ptr) (simp_all add: queue_def env_Close_frame)

lemma queue_chan_send:
  "queue (chan_send ptr b s) ptr' = (if ptr' = ptr then queue s ptr @ [b] else queue s ptr')"
  by (cases ptr; cases ptr') (simp_all add: queue_def)

lemma bp_chan_send: "bp (chan_send ptr b s) = bp s"
  by (cases ptr) simp_all

subsection \<open>The session invariant along the loop\<close>

lemma readLoop_iter_inv:
  assumes "session_inv s" and "readLoop_iter dec env s = Returns (ctl, s')"
  shows "session_inv s' \<and> (ctl = BreakLoop \<longrightarrow> closed s') \<and> (closed s \<longrightarrow> closed s')"
proof -
  obtain header herr c where h: "io_ReadFull 4 (conn s) = ((header, herr), c)"
    by (metis surj_pair)
  from assms(1) io_ReadFull_frame [OF h] have i1: "session_inv (s\<lparr>conn := c\<rparr>)"
    by (auto intro: session_inv_frame)
  show ?thesis
  proof (cases herr)
    case (Some e)
    with assms(2) h show ?thesis
      using doClose_inv [OF i1]
      by (auto simp: readLoop_iter_header_error break_loop_Returns)
  next
    case None
    obtain t n where d: "dec header = (t, n)"
      by (metis surj_pair)
    show ?thesis
    proof (cases "(t \<noteq> streamTypeYin \<and> t \<noteq> streamTypeYang) \<or> n \<le> 0")
      case True
      with assms(2) show ?thesis
        using doClose_inv [OF i1]
          readLoop_iter_invalid [of s header c dec t n env, OF h [unfolded None] d]
        by (auto simp: break_loop_Returns)
    next
      case False
      then have t: "t = streamTypeYin \<or> t = streamTypeYang" and n: "0 < n"
        by auto
      obtain b p where g: "Get (bp s) = (b, p)"
        by (metis surj_pair)
      obtain body rerr c' where cp: "io_Copy_LimitedReader b n c = ((body, rerr), c')"
        by (metis surj_pair)
      from io_Copy_frame [OF cp] io_ReadFull_frame [OF h]
      have cc: "close_calls c' = close_calls (conn s)"
        by simp
      show ?thesis
      proof (cases rerr)
        case (Some e)
        from assms(1) cc have "session_inv (s\<lparr>conn := c', bp := Put body p\<rparr>)"
          by (auto intro: session_inv_frame)
        from doClose_inv [OF this] assms(2) show ?thesis
          using readLoop_iter_body_error [of s header c dec t n b p body e c' env,
              OF h [unfolded None] d t n g cp [unfolded Some]]
          by (auto simp: break_loop_Returns)
      next
        case rnone: None
        let ?s3 = "env_Close (ext_close env) (s\<lparr>bp := p, conn := c'\<rparr>)"
        from assms(1) cc have "session_inv (s\<lparr>bp := p, conn := c'\<rparr>)"
          by (auto intro: session_inv_frame)
        then have i3: "session_inv ?s3"
          by (rule env_Close_inv)
        have i4: "session_inv (chan_send ptr body ?s3)"
          and c4: "closed (chan_send ptr body ?s3) = closed ?s3" for ptr
          using i3 by (cases ptr; auto intro: session_inv_frame)+
        have c3: "closed s \<longrightarrow> closed ?s3"
          by (auto intro: env_Close_closed)
        from assms(2)
        have "ctl = Continue \<and> s' = chan_send (inC_of t) body ?s3 \<or>
              ctl = BreakLoop \<and> s' = ?s3 \<and> closedC ?s3"
          unfolding readLoop_iter_select [of s header c dec t n b p body c' env,
              OF h [unfolded None] d t n g cp [unfolded rnone]]
          by (auto simp: select_cases split: if_splits)
        with i3 i4 c3 c4 show ?thesis
          by (auto simp: session_inv_def)
      qed
    qed
  qed
qed

text \<open>Under the invariant no iteration panics, and neither does the loop.\<close>

lemma break_loop_Panics: "break_loop r = Panics \<longleftrightarrow> r = Panics"
  by (simp add: break_loop_def split: outcome.splits)

lemma readLoop_iter_no_panic:
  assumes "session_inv s"
  shows "readLoop_iter dec env s \<noteq> Panics"
proof -
  have safe: "doClose err (s\<lparr>conn := c, bp := p\<rparr>) \<noteq> Panics" for err c p
    using assms by (intro doClose_no_panic) (simp add: session_inv_def)
  have safe': "doClose err (s\<lparr>conn := c\<rparr>) \<noteq> Panics" for err c
    using assms by (intro doClose_no_panic) (simp add: session_inv_def)
  show ?thesis
    using safe safe'
    by (auto simp: readLoop_iter_def Let_def break_loop_Panics
        split: prod.splits option.splits select_case.splits)
qed

lemma readLoop_no_panic:
  "session_inv s \<Longrightarrow> readLoop dec envs k s \<noteq> Panics"
proof (induction dec envs k s rule: readLoop.induct)
  case (1 dec envs k s)
  show ?case
  proof (cases "readLoop_iter dec (envs k) s")
    case (Returns r)
    obtain ctl s1 where r: "r = (ctl, s1)"
      by (cases r)
    from readLoop_iter_inv [OF "1.prems" Returns [unfolded r]] have i1: "session_inv s1"
      by simp
    show ?thesis
    proof (cases ctl)
      case Continue
      with "1.IH" [OF Returns r [symmetric] Continue i1] Returns r show ?thesis
        by simp
    next
      case BreakLoop
      with Returns r show ?thesis
        by simp
    qed
  next
    case Blocks
    then show ?thesis by simp
  next
    case Panics
    with readLoop_iter_no_panic [OF "1.prems"] show ?thesis
      by simp
  qed
qed

text \<open>The reader loop returns on a closed session only.\<close>

lemma readLoop_inv:
  "session_inv s \<Longrightarrow> readLoop dec envs k s = Returns s' \<Longrightarrow> session_inv s' \<and> closed s'"
proof (induction dec envs k s rule: readLoop.induct)
  case (1 dec envs k s)
  from "1.prems"(2) obtain ctl s1 where
    it: "readLoop_iter dec (envs k) s = Returns (ctl, s1)"
    by (auto split: outcome.splits)
  note i1 = readLoop_iter_inv [OF "1.prems"(1) it]
  show ?case
  proof (cases ctl)
    case Continue
    with it "1.prems"(2) have "readLoop dec envs (Suc k) s1 = Returns s'"
      by simp
    with "1.IH" [OF it refl Continue] i1 show ?thesis
      by simp
  next
    case BreakLoop
    with it "1.prems"(2) i1 show ?thesis
      by simp
  qed
qed

subsection \<open>Invalid headers\<close>

lemma invalid_tag_session_inv: "session_inv invalid_tag_session"
  using example_session_inv [of True 0]
  by (simp add: invalid_tag_session_def session_inv_def example_session_def example_conn_def)

text \<open>
  C4. When the header read succeeds and the decoded tag is neither 1 nor 2, or the
  decoded body length is not positive, the iteration calls \<^verbatim>\<open>doClose\<close> with the
  error "read a invalid header" and breaks out of the loop: the reader loop returns,
  the session is closed, no buffer is taken from the pool and neither sub-channel
  receives anything.
\<close>

theorem readLoop_invalid_header:
  assumes "session_inv s" and "\<not> closeLock s"
    and "io_ReadFull 4 (conn s) = ((header, None), c)"
    and "dec header = (t, n)"
    and "(t \<noteq> 1 \<and> t \<noteq> 2) \<or> n \<le> 0"
  shows "\<exists>s'. doClose (Some (Errorf ''read a invalid header'' None)) (s\<lparr>conn := c\<rparr>) = Returns s'
           \<and> readLoop_iter dec env s = Returns (BreakLoop, s')
           \<and> readLoop dec envs k s = Returns s'
           \<and> closed s' \<and> closedC s'
           \<and> queue s' Ptr_streamYin = queue s Ptr_streamYin
           \<and> queue s' Ptr_streamYang = queue s Ptr_streamYang
           \<and> bp s' = bp s"
proof -
  from assms(1,2) have "closedC (s\<lparr>conn := c\<rparr>) = closed (s\<lparr>conn := c\<rparr>)"
    and "\<not> closeLock (s\<lparr>conn := c\<rparr>)"
    by (simp_all add: session_inv_def)
  then obtain s' where
    cl: "doClose (Some (Errorf ''read a invalid header'' None)) (s\<lparr>conn := c\<rparr>) = Returns s'"
    and s': "closed s'" "closedC s'"
    using doClose_returns by blast
  from assms(5) have bad: "(t \<noteq> streamTypeYin \<and> t \<noteq> streamTypeYang) \<or> n \<le> 0"
    by (simp add: streamTypeYin_def streamTypeYang_def)
  have iter: "readLoop_iter dec env' s = Returns (BreakLoop, s')" for env'
    using readLoop_iter_invalid [of s header c dec t n env', OF assms(3,4) bad] cl
    by (simp add: break_loop_def)
  then have loop: "readLoop dec envs k s = Returns s'"
    by simp
  from doClose_frame [OF cl] have "queue s' Ptr_streamYin = queue s Ptr_streamYin"
    and "queue s' Ptr_streamYang = queue s Ptr_streamYang" and "bp s' = bp s"
    by (simp_all add: queue_def)
  with cl iter loop s' show ?thesis by blast
qed

theorem readLoop_invalid_header_witness:
  "session_inv invalid_tag_session \<and> \<not> closeLock invalid_tag_session \<and>
   io_ReadFull 4 (conn invalid_tag_session) =
     (([3, 0, 0, 1], None), example_conn\<lparr>rd_pending := [7]\<rparr>) \<and>
   decodeHeader [3, 0, 0, 1] = (3, 1) \<and>
   (((3 :: byte) \<noteq> 1 \<and> (3 :: byte) \<noteq> 2) \<or> (1 :: int) \<le> 0) \<and>
   (\<exists>s'. readLoop_iter decodeHeader example_env invalid_tag_session = Returns (BreakLoop, s') \<and>
         readLoop decodeHeader (\<lambda>k. example_env) 0 invalid_tag_session = Returns s' \<and>
         closed s' \<and> queue s' Ptr_streamYin = [] \<and> queue s' Ptr_streamYang = [])"
proof -
  have h1: "session_inv invalid_tag_session"
    by (rule invalid_tag_session_inv)
  have h2: "\<not> closeLock invalid_tag_session"
    by (simp add: invalid_tag_session_def example_session_def)
  have h3: "io_ReadFull 4 (conn invalid_tag_session) =
      (([3, 0, 0, 1], None), example_conn\<lparr>rd_pending := [7]\<rparr>)"
    by (simp add: invalid_tag_session_def example_session_def example_conn_def io_ReadFull_def)
  have h4: "decodeHeader [3, 0, 0, 1] = (3, 1)"
    by (simp add: decodeHeader_def)
  have h5: "((3 :: byte) \<noteq> 1 \<and> (3 :: byte) \<noteq> 2) \<or> (1 :: int) \<le> 0"
    by simp
  have q: "queue invalid_tag_session Ptr_streamYin = []"
    "queue invalid_tag_session Ptr_streamYang = []"
    by (simp_all add: queue_def invalid_tag_session_def example_session_def)
  from readLoop_invalid_header [of invalid_tag_session "[3, 0, 0, 1]"
      "example_conn\<lparr>rd_pending := [7]\<rparr>" decodeHeader 3 1 example_env "\<lambda>k. example_env" 0,
      OF h1 h2 h3 h4 h5] q
  have "\<exists>s'. readLoop_iter decodeHeader example_env invalid_tag_session = Returns (BreakLoop, s') \<and>
         readLoop decodeHeader (\<lambda>k. example_env) 0 invalid_tag_session = Returns s' \<and>
         closed s' \<and> queue s' Ptr_streamYin = [] \<and> queue s' Ptr_streamYang = []"
    by auto
  with h1 h2 h3 h4 h5 show ?thesis
    by blast
qed

subsection \<open>Delivery\<close>

lemma yang_frame_session_inv: "session_inv yang_frame_session"
  using example_session_inv [of True 0]
  by (simp add: yang_frame_session_def session_inv_def example_session_def example_conn_def)

text \<open>
  C6, as amended. When header and body have been read without error, the iteration
  sends the filled buffer on the inbound channel of the sub-channel whose tag is the
  decoded one: tag 1 goes to the yin stream and tag 2 to the yang stream, whatever the
  role flag of the session is. The other sub-channel receives nothing. When the
  \<^verbatim>\<open>select\<close> takes the case of the cancellation channel instead, the iteration
  leaves the loop and nothing has been delivered. Once the cancellation channel is
  closed the iteration never parks: if the send cannot proceed it leaves the loop,
  and if the send can proceed too the runtime picks one of the two cases, so that the
  buffer may still be delivered and the loop go on. While the channel is open and a
  receiver is ready the buffer is delivered.
\<close>

theorem readLoop_iter_delivery:
  assumes "session_inv s"
    and "io_ReadFull 4 (conn s) = ((header, None), c)"
    and "dec header = (t, n)" and "t = 1 \<or> t = 2" and "0 < n"
    and "Get (bp s) = (b, p)"
    and "io_Copy_LimitedReader b n c = ((body, None), c')"
    and "s1 = env_Close (ext_close env) (s\<lparr>bp := p, conn := c'\<rparr>)"
  shows "inC_of t = (if t = 1 then Ptr_streamYin else Ptr_streamYang)
       \<and> stream_type (deref s (inC_of t)) = t
       \<and> readLoop_iter dec env s =
           (if closedC s1 \<and> (\<not> recv_ready env \<or> \<not> pick_send env)
            then Returns (BreakLoop, s1)
            else if recv_ready env then Returns (Continue, chan_send (inC_of t) body s1)
            else Blocks)
       \<and> queue (chan_send (inC_of t) body s1) (inC_of t) = queue s (inC_of t) @ [body]
       \<and> (\<forall>ptr. ptr \<noteq> inC_of t \<longrightarrow> queue (chan_send (inC_of t) body s1) ptr = queue s ptr)
       \<and> (\<forall>ptr. queue s1 ptr = queue s ptr)
       \<and> (\<forall>s'. readLoop_iter dec env s = Returns (BreakLoop, s') \<longrightarrow>
            closedC s' \<and> (\<forall>ptr. queue s' ptr = queue s ptr))
       \<and> (closedC s1 \<and> \<not> recv_ready env \<longrightarrow>
            readLoop_iter dec env s = Returns (BreakLoop, s1))
       \<and> (closedC s1 \<longrightarrow> readLoop_iter dec env s \<noteq> Blocks)
       \<and> (\<not> closedC s1 \<and> recv_ready env \<longrightarrow>
            readLoop_iter dec env s = Returns (Continue, chan_send (inC_of t) body s1))"
proof -
  from assms(4) have t: "t = streamTypeYin \<or> t = streamTypeYang"
    by (simp add: streamTypeYin_def streamTypeYang_def)
  have ptr: "inC_of t = (if t = 1 then Ptr_streamYin else Ptr_streamYang)"
    by (simp add: inC_of_def streamTypeYin_def)
  from assms(1,4) have tag: "stream_type (deref s (inC_of t)) = t"
    by (auto simp: ptr session_inv_def streamTypeYin_def streamTypeYang_def)
  have iter: "readLoop_iter dec env s =
      (if closedC s1 \<and> (\<not> recv_ready env \<or> \<not> pick_send env)
       then Returns (BreakLoop, s1)
       else if recv_ready env then Returns (Continue, chan_send (inC_of t) body s1)
       else Blocks)"
    unfolding readLoop_iter_select [of s header c dec t n b p body c' env,
        OF assms(2,3) t assms(5-7)] assms(8) [symmetric] select_cases
    by simp
  have q1: "queue s1 ptr = queue s ptr" for ptr
    unfolding assms(8) queue_env_Close by (cases ptr) (simp_all add: queue_def)
  show ?thesis
    unfolding iter using ptr tag q1 by (simp add: queue_chan_send)
qed

theorem readLoop_iter_delivery_witness:
  "session_inv yang_frame_session \<and>
   io_ReadFull 4 (conn yang_frame_session) =
     (([2, 0, 0, 2], None), example_conn\<lparr>rd_pending := [10, 11]\<rparr>) \<and>
   decodeHeader [2, 0, 0, 2] = (2, 2) \<and>
   ((2 :: byte) = 1 \<or> (2 :: byte) = 2) \<and> (0 :: int) < 2 \<and>
   Get (bp yang_frame_session) =
     (\<lparr>buf_id = 0, buf_data = []\<rparr>, \<lparr>pool_size = 16, pool_bufs = [], pool_allocated = 1\<rparr>) \<and>
   io_Copy_LimitedReader \<lparr>buf_id = 0, buf_data = []\<rparr> 2 (example_conn\<lparr>rd_pending := [10, 11]\<rparr>) =
     ((\<lparr>buf_id = 0, buf_data = [10, 11]\<rparr>, None), example_conn\<lparr>rd_pending := []\<rparr>) \<and>
   yinOrYang yang_frame_session \<and>
   (\<exists>s'. readLoop_iter decodeHeader example_env yang_frame_session = Returns (Continue, s') \<and>
         queue s' Ptr_streamYang = [\<lparr>buf_id = 0, buf_data = [10, 11]\<rparr>] \<and>
         queue s' Ptr_streamYin = []) \<and>
   (\<exists>s'. readLoop_iter decodeHeader closing_env yang_frame_session = Returns (BreakLoop, s') \<and>
         queue s' Ptr_streamYang = [] \<and> queue s' Ptr_streamYin = [])"
proof -
  let ?c = "example_conn\<lparr>rd_pending := [10, 11]\<rparr>"
  let ?c' = "example_conn\<lparr>rd_pending := []\<rparr>"
  let ?p = "\<lparr>pool_size = 16, pool_bufs = [], pool_allocated = 1\<rparr>"
  let ?b = "\<lparr>buf_id = 0, buf_data = []\<rparr>"
  let ?body = "\<lparr>buf_id = 0, buf_data = [10, 11]\<rparr>"
  have h1: "session_inv yang_frame_session"
    by (rule yang_frame_session_inv)
  have h2: "io_ReadFull 4 (conn yang_frame_session) = (([2, 0, 0, 2], None), ?c)"
    by (simp add: yang_frame_session_def example_session_def example_conn_def io_ReadFull_def)
  have h3: "decodeHeader [2, 0, 0, 2] = (2, 2)"
    by (simp add: decodeHeader_def)
  have h4: "(2 :: byte) = 1 \<or> (2 :: byte) = 2"
    by simp
  have h5: "(0 :: int) < 2"
    by simp
  have h6: "Get (bp yang_frame_session) = (?b, ?p)"
    by (simp add: yang_frame_session_def example_session_def Get_def)
  have h7: "io_Copy_LimitedReader ?b 2 ?c = ((?body, None), ?c')"
    by (simp add: io_Copy_LimitedReader_def example_conn_def)
  have role: "yinOrYang yang_frame_session"
    by (simp add: yang_frame_session_def example_session_def)
  have q: "queue yang_frame_session ptr = []" for ptr
    by (cases ptr) (simp_all add: queue_def yang_frame_session_def example_session_def)
  have yang: "inC_of 2 = Ptr_streamYang"
    by (simp add: inC_of_def streamTypeYin_def)
  define s1 where "s1 = env_Close (ext_close example_env) (yang_frame_session\<lparr>bp := ?p, conn := ?c'\<rparr>)"
  define s2 where "s2 = env_Close (ext_close closing_env) (yang_frame_session\<lparr>bp := ?p, conn := ?c'\<rparr>)"
  have open1: "\<not> closedC s1" and ready1: "recv_ready example_env"
    by (simp_all add: s1_def env_Close_def example_env_def yang_frame_session_def
        example_session_def)
  have "closedC (yang_frame_session\<lparr>bp := ?p, conn := ?c'\<rparr>) =
      closed (yang_frame_session\<lparr>bp := ?p, conn := ?c'\<rparr>)"
    and "\<not> closeLock (yang_frame_session\<lparr>bp := ?p, conn := ?c'\<rparr>)"
    by (simp_all add: yang_frame_session_def example_session_def)
  then obtain s3 where
    "doClose None (yang_frame_session\<lparr>bp := ?p, conn := ?c'\<rparr>) = Returns s3" and "closedC s3"
    using doClose_returns by blast
  then have closed2: "closedC s2" and ready2: "\<not> recv_ready closing_env"
    by (simp_all add: s2_def env_Close_def Close_unfold closing_env_def)
  note d1 = readLoop_iter_delivery [of yang_frame_session "[2, 0, 0, 2]" ?c decodeHeader 2 2
      ?b ?p ?body ?c' s1 example_env, OF h1 h2 h3 h4 h5 h6 h7 s1_def]
  note d2 = readLoop_iter_delivery [of yang_frame_session "[2, 0, 0, 2]" ?c decodeHeader 2 2
      ?b ?p ?body ?c' s2 closing_env, OF h1 h2 h3 h4 h5 h6 h7 s2_def]
  from d1 open1 ready1 yang q
  have r1: "\<exists>s'. readLoop_iter decodeHeader example_env yang_frame_session = Returns (Continue, s') \<and>
         queue s' Ptr_streamYang = [\<lparr>buf_id = 0, buf_data = [10, 11]\<rparr>] \<and>
         queue s' Ptr_streamYin = []"
    by auto
  from d2 closed2 ready2 q
  have r2: "\<exists>s'. readLoop_iter decodeHeader closing_env yang_frame_session = Returns (BreakLoop, s') \<and>
         queue s' Ptr_streamYang = [] \<and> queue s' Ptr_streamYin = []"
    by auto
  from h1 h2 h3 h4 h5 h6 h7 role r1 r2 show ?thesis
    by blast
qed

text \<open>
  C6 as stated fails when the cancellation channel is closed before the \<^verbatim>\<open>select\<close>
  and a receiver is ready too: both cases of the \<^verbatim>\<open>select\<close> can proceed, the runtime
  picks either, and when it picks the send the frame is delivered on the closed session
  and the loop goes on to the next iteration.
\<close>

theorem readLoop_delivery_after_cancel_counterexample:
  "ext_close racing_env \<and>
   closedC (env_Close (ext_close racing_env)
     (yang_frame_session\<lparr>bp := \<lparr>pool_size = 16, pool_bufs = [], pool_allocated = 1\<rparr>,
                         conn := example_conn\<lparr>rd_pending := []\<rparr>\<rparr>)) \<and>
   readLoop_iter decodeHeader racing_env yang_frame_session = Returns (Continue, racing_state) \<and>
   closed racing_state \<and> closedC racing_state \<and>
   queue racing_state Ptr_streamYang = [\<lparr>buf_id = 0, buf_data = [10, 11]\<rparr>]"
proof -
  let ?c = "example_conn\<lparr>rd_pending := [10, 11]\<rparr>"
  let ?c' = "example_conn\<lparr>rd_pending := []\<rparr>"
  let ?p = "\<lparr>pool_size = 16, pool_bufs = [], pool_allocated = 1\<rparr>"
  let ?b = "\<lparr>buf_id = 0, buf_data = []\<rparr>"
  let ?body = "\<lparr>buf_id = 0, buf_data = [10, 11]\<rparr>"
  have h2: "io_ReadFull 4 (conn yang_frame_session) = (([2, 0, 0, 2], None), ?c)"
    by (simp add: yang_frame_session_def example_session_def example_conn_def io_ReadFull_def)
  have h3: "decodeHeader [2, 0, 0, 2] = (2, 2)"
    by (simp add: decodeHeader_def)
  have h4: "(2 :: byte) = streamTypeYin \<or> (2 :: byte) = streamTypeYang"
    by (simp add: streamTypeYang_def)
  have h5: "(0 :: int) < 2"
    by simp
  have h6: "Get (bp yang_frame_session) = (?b, ?p)"
    by (simp add: yang_frame_session_def example_session_def Get_def)
  have h7: "io_Copy_LimitedReader ?b 2 ?c = ((?body, None), ?c')"
    by (simp add: io_Copy_LimitedReader_def example_conn_def)
  have yang: "inC_of 2 = Ptr_streamYang"
    by (simp add: inC_of_def streamTypeYin_def)
  have e: "ext_close racing_env" "recv_ready racing_env" "pick_send racing_env"
    by (simp_all add: racing_env_def)
  have s1: "env_Close True (yang_frame_session\<lparr>bp := ?p, conn := ?c'\<rparr>) =
      yang_frame_session
        \<lparr>conn := example_conn\<lparr>rd_pending := [], close_calls := 1\<rparr>, bp := ?p,
         client := \<lparr>codec = ClientCodec Ptr_streamYin, closing = True, shutdown = False\<rparr>,
         closed := True, closedC := True\<rparr>"
    by (simp add: env_Close_def Close_unfold doClose_unfold Lock_def Unlock_def close_chan_def
        conn_Close_def Client_Close_def yang_frame_session_def example_session_def
        example_conn_def)
  have r: "chan_send Ptr_streamYang ?body (env_Close True (yang_frame_session\<lparr>bp := ?p, conn := ?c'\<rparr>)) =
      racing_state"
    unfolding s1
    by (simp add: racing_state_def yang_frame_session_def example_session_def example_conn_def)
  have c: "closedC (env_Close True (yang_frame_session\<lparr>bp := ?p, conn := ?c'\<rparr>))"
    unfolding s1 by simp
  have "readLoop_iter decodeHeader racing_env yang_frame_session = Returns (Continue, racing_state)"
    unfolding readLoop_iter_select [of yang_frame_session "[2, 0, 0, 2]" ?c decodeHeader 2 2
        ?b ?p ?body ?c' racing_env, OF h2 h3 h4 h5 h6 h7]
    using e c r yang by (simp add: select_def)
  moreover have "closed racing_state" "closedC racing_state"
    "queue racing_state Ptr_streamYang = [?body]"
    by (simp_all add: racing_state_def queue_def)
  ultimately show ?thesis
    using e(1) c by simp
qed

subsection \<open>Reading the body\<close>

text \<open>
  What the body read does: with enough bytes pending it reads exactly the decoded
  length; when the connection fails with an error other than \<^verbatim>\<open>EOF\<close> before that,
  the copy returns this error; when the peer shuts down before that, the copy returns
  nil and the buffer holds the bytes that did arrive.
\<close>

lemma body_read_exact:
  "nat n \<le> length (rd_pending c) \<Longrightarrow>
   io_Copy_LimitedReader b n c =
     ((b\<lparr>buf_data := buf_data b @ take (nat n) (rd_pending c)\<rparr>, None),
      c\<lparr>rd_pending := drop (nat n) (rd_pending c)\<rparr>)"
  by (simp add: io_Copy_LimitedReader_def Let_def)

lemma body_read_conn_error:
  "length (rd_pending c) < nat n \<Longrightarrow> rd_final c \<noteq> EOF \<Longrightarrow>
   io_Copy_LimitedReader b n c =
     ((b\<lparr>buf_data := buf_data b @ rd_pending c\<rparr>, Some (rd_final c)), c\<lparr>rd_pending := []\<rparr>)"
  by (simp add: io_Copy_LimitedReader_def Let_def)

lemma body_read_short_EOF:
  "length (rd_pending c) < nat n \<Longrightarrow> rd_final c = EOF \<Longrightarrow>
   io_Copy_LimitedReader b n c =
     ((b\<lparr>buf_data := buf_data b @ rd_pending c\<rparr>, None), c\<lparr>rd_pending := []\<rparr>)"
  by (simp add: io_Copy_LimitedReader_def Let_def)

lemma short_body_iteration:
  "readLoop_iter decodeHeader example_env (example_session True 0) =
     Returns (Continue, short_body_state)"
  by (simp add: readLoop_iter_def example_session_def example_conn_def example_env_def
      short_body_state_def io_ReadFull_def io_Copy_LimitedReader_def decodeHeader_def Get_def
      Let_def streamTypeYin_def streamTypeYang_def env_Close_def select_def)

lemma short_body_next_iteration:
  "readLoop_iter decodeHeader example_env short_body_state =
     Returns (BreakLoop,
       short_body_state
         \<lparr>closed := True, closedC := True,
          conn := example_conn\<lparr>rd_pending := [], close_calls := 1\<rparr>,
          client := \<lparr>codec = ClientCodec Ptr_streamYin, closing = True, shutdown = False\<rparr>\<rparr>)"
  by (simp add: readLoop_iter_def example_session_def example_conn_def
      short_body_state_def io_ReadFull_def break_loop_def doClose_unfold Lock_def Unlock_def
      close_chan_def conn_Close_def Client_Close_def Let_def)

text \<open>
  C5, at the failing input. The peer announces a body of five bytes on the yin
  sub-channel, sends two and shuts down. The copy of the body ends with \<^verbatim>\<open>EOF\<close>
  and so returns nil: the iteration does not take the error branch, the buffer is not
  returned to the pool and the session stays open; the two bytes are delivered to the
  yin sub-channel as a frame. The session is closed by the next iteration only, whose
  header read fails.
\<close>

theorem readLoop_short_body_delivered:
  "decodeHeader [1, 0, 0, 5] = (1, 5) \<and>
   io_Copy_LimitedReader \<lparr>buf_id = 0, buf_data = []\<rparr> 5 (example_conn\<lparr>rd_pending := [97, 98]\<rparr>) =
     ((\<lparr>buf_id = 0, buf_data = [97, 98]\<rparr>, None), example_conn\<lparr>rd_pending := []\<rparr>) \<and>
   readLoop_iter decodeHeader example_env (example_session True 0) =
     Returns (Continue, short_body_state) \<and>
   \<not> closed short_body_state \<and>
   pool_bufs (bp short_body_state) = [] \<and>
   queue short_body_state Ptr_streamYin = [\<lparr>buf_id = 0, buf_data = [97, 98]\<rparr>] \<and>
   readLoop decodeHeader (\<lambda>k. example_env) 0 (example_session True 0) =
     Returns (short_body_state
       \<lparr>closed := True, closedC := True,
        conn := example_conn\<lparr>rd_pending := [], close_calls := 1\<rparr>,
        client := \<lparr>codec = ClientCodec Ptr_streamYin, closing = True, shutdown = False\<rparr>\<rparr>)"
proof -
  have "decodeHeader [1, 0, 0, 5] = (1, 5)"
    by (simp add: decodeHeader_def)
  moreover have "io_Copy_LimitedReader \<lparr>buf_id = 0, buf_data = []\<rparr> 5
        (example_conn\<lparr>rd_pending := [97, 98]\<rparr>) =
      ((\<lparr>buf_id = 0, buf_data = [97, 98]\<rparr>, None), example_conn\<lparr>rd_pending := []\<rparr>)"
    by (simp add: io_Copy_LimitedReader_def example_conn_def)
  moreover have "\<not> closed short_body_state" and "pool_bufs (bp short_body_state) = []"
    and "queue short_body_state Ptr_streamYin = [\<lparr>buf_id = 0, buf_data = [97, 98]\<rparr>]"
    by (simp_all add: short_body_state_def example_session_def queue_def)
  moreover have "readLoop decodeHeader (\<lambda>k. example_env) 0 (example_session True 0) =
      Returns (short_body_state
        \<lparr>closed := True, closedC := True,
         conn := example_conn\<lparr>rd_pending := [], close_calls := 1\<rparr>,
         client := \<lparr>codec = ClientCodec Ptr_streamYin, closing = True, shutdown = False\<rparr>\<rparr>)"
    by (simp add: short_body_iteration short_body_next_iteration)
  ultimately show ?thesis
    using short_body_iteration by simp
qed

section \<open>Buffer ownership\<close>

lemma Get_held:
  assumes "buffers_inv s" and "Get (bp s) = (b, p)"
  shows "distinct (buf_id b # owned_ids (s\<lparr>bp := p\<rparr>)) \<and>
         (\<forall>i \<in> set (buf_id b # owned_ids (s\<lparr>bp := p\<rparr>)). i < pool_allocated p)"
proof (cases "pool_bufs (bp s)")
  case Nil
  with assms(2) have b: "buf_id b = pool_allocated (bp s)"
    and p: "p = (bp s)\<lparr>pool_allocated := Suc (pool_allocated (bp s))\<rparr>"
    by (auto simp: Get_def)
  from p have o: "owned_ids (s\<lparr>bp := p\<rparr>) = owned_ids s"
    by (simp add: owned_ids_def)
  from assms(1) have d: "distinct (owned_ids s)"
    and lt: "\<forall>i \<in> set (owned_ids s). i < pool_allocated (bp s)"
    by (simp_all add: buffers_inv_def)
  from lt have "pool_allocated (bp s) \<notin> set (owned_ids s)"
    by auto
  with d lt b o p show ?thesis
    by (auto simp: less_Suc_eq)
next
  case (Cons x xs)
  with assms(2) have b: "buf_id b = buf_id x" and p: "p = (bp s)\<lparr>pool_bufs := xs\<rparr>"
    by (auto simp: Get_def)
  from Cons b p have o: "owned_ids s = buf_id b # owned_ids (s\<lparr>bp := p\<rparr>)"
    by (simp add: owned_ids_def)
  from p have "pool_allocated p = pool_allocated (bp s)"
    by simp
  with assms(1) o show ?thesis
    by (simp add: buffers_inv_def)
qed

lemma owned_ids_frame:
  "bp s' = bp s \<Longrightarrow> streamYin s' = streamYin s \<Longrightarrow> streamYang s' = streamYang s \<Longrightarrow>
   owned_ids s' = owned_ids s"
  by (simp add: owned_ids_def)

lemma owned_ids_send:
  "set (owned_ids (chan_send ptr body s)) = insert (buf_id body) (set (owned_ids s))"
  by (cases ptr) (auto simp: owned_ids_def)

lemma distinct_owned_ids_send:
  "distinct (owned_ids (chan_send ptr body s)) \<longleftrightarrow> distinct (buf_id body # owned_ids s)"
  by (cases ptr) (auto simp: owned_ids_def)

lemma owned_ids_Put:
  "set (owned_ids (s\<lparr>bp := Put body p\<rparr>)) \<subseteq>
     insert (buf_id body) (set (owned_ids (s\<lparr>bp := p\<rparr>)))"
  by (auto simp: owned_ids_def Put_def)

lemma distinct_owned_ids_Put:
  "distinct (buf_id body # owned_ids (s\<lparr>bp := p\<rparr>)) \<Longrightarrow>
   distinct (owned_ids (s\<lparr>bp := Put body p\<rparr>))"
  by (auto simp: owned_ids_def Put_def)

lemma pool_allocated_Put: "pool_allocated (Put body p) = pool_allocated p"
  by (simp add: Put_def)

lemma env_Close_owned: "owned_ids (env_Close x s) = owned_ids s"
  by (rule owned_ids_frame) (simp_all add: env_Close_frame)

text \<open>The buffer is returned to the pool: the body read failed.\<close>

lemma returned_ownership:
  assumes held: "distinct (buf_id body # owned_ids (s\<lparr>bp := p\<rparr>))"
    and lt: "\<forall>i \<in> set (buf_id body # owned_ids (s\<lparr>bp := p\<rparr>)). i < pool_allocated p"
    and cl: "doClose err (s\<lparr>conn := c', bp := Put body p\<rparr>) = Returns s'"
  shows "buffers_inv s' \<and> bp s' = Put body p \<and> (\<forall>ptr. queue s' ptr = queue s ptr)"
proof -
  note fr = doClose_frame [OF cl]
  have "owned_ids s' = owned_ids (s\<lparr>conn := c', bp := Put body p\<rparr>)"
    using fr by (intro owned_ids_frame) simp_all
  then have o: "owned_ids s' = owned_ids (s\<lparr>bp := Put body p\<rparr>)"
    by (simp add: owned_ids_def)
  have d: "distinct (owned_ids s')"
    unfolding o using held by (rule distinct_owned_ids_Put)
  have "\<forall>i \<in> set (owned_ids s'). i < pool_allocated (bp s')"
    unfolding o using lt owned_ids_Put [of body p s] fr
    by (auto simp: pool_allocated_Put)
  with d have "buffers_inv s'"
    by (simp add: buffers_inv_def)
  moreover have "queue s' ptr = queue s ptr" for ptr
    using fr by (cases ptr) (simp_all add: queue_def)
  ultimately show ?thesis
    using fr by simp
qed

text \<open>The buffer is sent on an inbound channel, or dropped on cancellation.\<close>

lemma delivered_ownership:
  assumes held: "distinct (buf_id body # owned_ids (s\<lparr>bp := p\<rparr>))"
    and lt: "\<forall>i \<in> set (buf_id body # owned_ids (s\<lparr>bp := p\<rparr>)). i < pool_allocated p"
    and s3: "s3 = env_Close x (s\<lparr>bp := p, conn := c'\<rparr>)"
  shows "buffers_inv (chan_send ptr body s3) \<and> bp (chan_send ptr body s3) = p \<and>
         buffers_inv s3 \<and> bp s3 = p \<and> buf_id body \<notin> set (owned_ids s3) \<and>
         (\<forall>ptr'. queue s3 ptr' = queue s ptr')"
proof -
  have o3: "owned_ids s3 = owned_ids (s\<lparr>bp := p\<rparr>)"
    unfolding s3 env_Close_owned by (simp add: owned_ids_def)
  have bp3: "bp s3 = p"
    unfolding s3 by (simp add: env_Close_frame)
  have q3: "queue s3 ptr' = queue s ptr'" for ptr'
    unfolding s3 queue_env_Close by (cases ptr') (simp_all add: queue_def)
  have "distinct (owned_ids (chan_send ptr body s3))"
    unfolding distinct_owned_ids_send o3 using held .
  moreover have "\<forall>i \<in> set (owned_ids (chan_send ptr body s3)).
      i < pool_allocated (bp (chan_send ptr body s3))"
    unfolding owned_ids_send o3 bp_chan_send bp3 using lt by simp
  ultimately have "buffers_inv (chan_send ptr body s3)"
    by (simp add: buffers_inv_def)
  moreover from held lt o3 bp3 have "buffers_inv s3" and "buf_id body \<notin> set (owned_ids s3)"
    by (simp_all add: buffers_inv_def)
  ultimately show ?thesis
    using bp3 q3 by (simp add: bp_chan_send)
qed

lemma yang_frame_session_buffers: "buffers_inv yang_frame_session"
  by (simp add: buffers_inv_def owned_ids_def yang_frame_session_def example_session_def)

text \<open>
  C10. In an iteration that takes a buffer from the pool, and that returns, exactly
  one of three things happens to this buffer. Either the body read returned no error
  and the loop continues: then the buffer has been appended to the inbound channel of
  exactly one sub-channel and is not in the pool. Or the body read returned an error
  and the loop ends: then the buffer has been handed to \<^verbatim>\<open>Put\<close> and is in neither
  inbound channel. Or the body read returned no error and the loop ends on the
  cancellation channel: then the buffer is neither in the pool nor in an inbound
  channel. In every case no allocation is held twice afterwards.
\<close>

theorem readLoop_iter_buffer_ownership:
  assumes "buffers_inv s"
    and "io_ReadFull 4 (conn s) = ((header, None), c)"
    and "dec header = (t, n)" and "t = 1 \<or> t = 2" and "0 < n"
    and "Get (bp s) = (b, p)"
    and "io_Copy_LimitedReader b n c = ((body, rerr), c')"
    and "readLoop_iter dec env s = Returns (ctl, s')"
  shows "buffers_inv s' \<and> buf_id body = buf_id b \<and>
     (ctl = Continue \<and> rerr = None \<and> bp s' = p \<and>
        buf_id body \<notin> buf_id ` set (pool_bufs (bp s')) \<and>
        (queue s' Ptr_streamYin = queue s Ptr_streamYin @ [body] \<and>
           queue s' Ptr_streamYang = queue s Ptr_streamYang \<or>
         queue s' Ptr_streamYang = queue s Ptr_streamYang @ [body] \<and>
           queue s' Ptr_streamYin = queue s Ptr_streamYin)
      \<or> ctl = BreakLoop \<and> rerr \<noteq> None \<and> bp s' = Put body p \<and>
        queue s' Ptr_streamYin = queue s Ptr_streamYin \<and>
        queue s' Ptr_streamYang = queue s Ptr_streamYang \<and>
        buf_id body \<notin> buf_id ` (set (queue s' Ptr_streamYin) \<union> set (queue s' Ptr_streamYang))
      \<or> ctl = BreakLoop \<and> rerr = None \<and> closedC s' \<and> bp s' = p \<and>
        queue s' Ptr_streamYin = queue s Ptr_streamYin \<and>
        queue s' Ptr_streamYang = queue s Ptr_streamYang \<and>
        buf_id body \<notin> set (owned_ids s'))"
proof -
  from assms(4) have t: "t = streamTypeYin \<or> t = streamTypeYang"
    by (simp add: streamTypeYin_def streamTypeYang_def)
  have id: "buf_id body = buf_id b"
    using assms(7) by (rule io_Copy_buf_id)
  from Get_held [OF assms(1,6)] id
  have held: "distinct (buf_id body # owned_ids (s\<lparr>bp := p\<rparr>))"
    and lt: "\<forall>i \<in> set (buf_id body # owned_ids (s\<lparr>bp := p\<rparr>)). i < pool_allocated p"
    by simp_all
  have in_queue: "buf_id ` (set (queue s Ptr_streamYin) \<union> set (queue s Ptr_streamYang))
      \<subseteq> set (owned_ids (s\<lparr>bp := p\<rparr>))"
    by (auto simp: owned_ids_def queue_def)
  have in_pool: "buf_id ` set (pool_bufs p) \<subseteq> set (owned_ids (s\<lparr>bp := p\<rparr>))"
    by (auto simp: owned_ids_def)
  show ?thesis
  proof (cases rerr)
    case (Some e)
    from assms(8) Some
    have cl: "doClose (Some (Errorf ''read body error: '' (Some e)))
        (s\<lparr>conn := c', bp := Put body p\<rparr>) = Returns s'"
      and ctl: "ctl = BreakLoop"
      using readLoop_iter_body_error [of s header c dec t n b p body e c' env,
          OF assms(2,3) t assms(5,6)] assms(7)
      by (auto simp: break_loop_Returns)
    note r = returned_ownership [OF held lt cl]
    from held in_queue
    have "buf_id body \<notin> buf_id ` (set (queue s Ptr_streamYin) \<union> set (queue s Ptr_streamYang))"
      by auto
    with r id ctl Some show ?thesis
      by simp
  next
    case None
    define s3 where "s3 = env_Close (ext_close env) (s\<lparr>bp := p, conn := c'\<rparr>)"
    note d = delivered_ownership [OF held lt s3_def]
    note iter = readLoop_iter_select [of s header c dec t n b p body c' env,
        OF assms(2,3) t assms(5,6) assms(7) [unfolded None], folded s3_def]
    from assms(8) iter
    consider (send) "ctl = Continue" "s' = chan_send (inC_of t) body s3"
      | (cancel) "ctl = BreakLoop" "s' = s3" "closedC s3"
      by (auto simp: select_cases split: if_splits)
    then show ?thesis
    proof cases
      case send
      from held in_pool have np: "buf_id body \<notin> buf_id ` set (pool_bufs p)"
        by auto
      have "queue s' ptr = (if ptr = inC_of t then queue s ptr @ [body] else queue s ptr)"
        for ptr
        unfolding send(2) queue_chan_send using d by simp
      with inC_of_cases [of t]
      have "queue s' Ptr_streamYin = queue s Ptr_streamYin @ [body] \<and>
           queue s' Ptr_streamYang = queue s Ptr_streamYang \<or>
         queue s' Ptr_streamYang = queue s Ptr_streamYang @ [body] \<and>
           queue s' Ptr_streamYin = queue s Ptr_streamYin"
        by auto
      with d [of "inC_of t"] id send None np show ?thesis
        by simp
    next
      case cancel
      with d [of "inC_of t"] id None show ?thesis
        by simp
    qed
  qed
qed

theorem readLoop_iter_buffer_ownership_witness:
  "buffers_inv yang_frame_session \<and>
   io_ReadFull 4 (conn yang_frame_session) =
     (([2, 0, 0, 2], None), example_conn\<lparr>rd_pending := [10, 11]\<rparr>) \<and>
   decodeHeader [2, 0, 0, 2] = (2, 2) \<and>
   ((2 :: byte) = 1 \<or> (2 :: byte) = 2) \<and> (0 :: int) < 2 \<and>
   Get (bp yang_frame_session) =
     (\<lparr>buf_id = 0, buf_data = []\<rparr>, \<lparr>pool_size = 16, pool_bufs = [], pool_allocated = 1\<rparr>) \<and>
   io_Copy_LimitedReader \<lparr>buf_id = 0, buf_data = []\<rparr> 2 (example_conn\<lparr>rd_pending := [10, 11]\<rparr>) =
     ((\<lparr>buf_id = 0, buf_data = [10, 11]\<rparr>, None), example_conn\<lparr>rd_pending := []\<rparr>) \<and>
   (\<exists>s'. readLoop_iter decodeHeader example_env yang_frame_session = Returns (Continue, s') \<and>
         buffers_inv s' \<and> pool_bufs (bp s') = [] \<and>
         (queue s' Ptr_streamYin = [\<lparr>buf_id = 0, buf_data = [10, 11]\<rparr>] \<and>
            queue s' Ptr_streamYang = [] \<or>
          queue s' Ptr_streamYang = [\<lparr>buf_id = 0, buf_data = [10, 11]\<rparr>] \<and>
            queue s' Ptr_streamYin = []))"
proof -
  let ?c = "example_conn\<lparr>rd_pending := [10, 11]\<rparr>"
  let ?c' = "example_conn\<lparr>rd_pending := []\<rparr>"
  let ?p = "\<lparr>pool_size = 16, pool_bufs = [], pool_allocated = 1\<rparr>"
  let ?b = "\<lparr>buf_id = 0, buf_data = []\<rparr>"
  let ?body = "\<lparr>buf_id = 0, buf_data = [10, 11]\<rparr>"
  have h1: "buffers_inv yang_frame_session"
    by (rule yang_frame_session_buffers)
  have h2: "io_ReadFull 4 (conn yang_frame_session) = (([2, 0, 0, 2], None), ?c)"
    by (simp add: yang_frame_session_def example_session_def example_conn_def io_ReadFull_def)
  have h3: "decodeHeader [2, 0, 0, 2] = (2, 2)"
    by (simp add: decodeHeader_def)
  have h4: "(2 :: byte) = 1 \<or> (2 :: byte) = 2"
    by simp
  have h5: "(0 :: int) < 2"
    by simp
  have h6: "Get (bp yang_frame_session) = (?b, ?p)"
    by (simp add: yang_frame_session_def example_session_def Get_def)
  have h7: "io_Copy_LimitedReader ?b 2 ?c = ((?body, None), ?c')"
    by (simp add: io_Copy_LimitedReader_def example_conn_def)
  have q: "queue yang_frame_session ptr = []" for ptr
    by (cases ptr) (simp_all add: queue_def yang_frame_session_def example_session_def)
  have "t = streamTypeYin \<or> t = streamTypeYang" if "t = 2" for t :: byte
    using that by (simp add: streamTypeYang_def)
  then have "\<exists>s'. readLoop_iter decodeHeader example_env yang_frame_session =
      Returns (Continue, s')"
    using readLoop_iter_select [of yang_frame_session "[2, 0, 0, 2]" ?c decodeHeader 2 2
        ?b ?p ?body ?c' example_env, OF h2 h3 _ h5 h6 h7]
    by (simp add: select_cases example_env_def env_Close_def yang_frame_session_def
        example_session_def)
  then obtain s' where
    it: "readLoop_iter decodeHeader example_env yang_frame_session = Returns (Continue, s')" ..
  from readLoop_iter_buffer_ownership [of yang_frame_session "[2, 0, 0, 2]" ?c decodeHeader 2 2
      ?b ?p ?body None ?c' example_env Continue s', OF h1 h2 h3 h4 h5 h6 h7 it] q it
  have "\<exists>s'. readLoop_iter decodeHeader example_env yang_frame_session = Returns (Continue, s') \<and>
         buffers_inv s' \<and> pool_bufs (bp s') = [] \<and>
         (queue s' Ptr_streamYin = [?body] \<and> queue s' Ptr_streamYang = [] \<or>
          queue s' Ptr_streamYang = [?body] \<and> queue s' Ptr_streamYin = [])"
    by auto
  with h1 h2 h3 h4 h5 h6 h7 show ?thesis
    by blast
qed

text \<open>
  Every iteration keeps the buffers apart, and \<^verbatim>\<open>NewSession\<close> starts with none.
\<close>

lemma readLoop_iter_buffers_inv:
  assumes "buffers_inv s" and "readLoop_iter dec env s = Returns (ctl, s')"
  shows "buffers_inv s'"
proof -
  obtain header herr c where h: "io_ReadFull 4 (conn s) = ((header, herr), c)"
    by (metis surj_pair)
  have closing: "buffers_inv s'" if "doClose err (s\<lparr>conn := c\<rparr>) = Returns s'" for err
  proof -
    from doClose_frame [OF that] have "owned_ids s' = owned_ids s" and "bp s' = bp s"
      by (simp_all add: owned_ids_def)
    with assms(1) show ?thesis
      by (simp add: buffers_inv_def)
  qed
  show ?thesis
  proof (cases herr)
    case (Some e)
    with assms(2) h closing show ?thesis
      by (auto simp: readLoop_iter_header_error break_loop_Returns)
  next
    case None
    obtain t n where d: "dec header = (t, n)"
      by (metis surj_pair)
    show ?thesis
    proof (cases "(t \<noteq> streamTypeYin \<and> t \<noteq> streamTypeYang) \<or> n \<le> 0")
      case True
      with assms(2) closing show ?thesis
        using readLoop_iter_invalid [of s header c dec t n env, OF h [unfolded None] d]
        by (auto simp: break_loop_Returns)
    next
      case False
      then have t: "t = streamTypeYin \<or> t = streamTypeYang" and n: "0 < n"
        by auto
      obtain b p where g: "Get (bp s) = (b, p)"
        by (metis surj_pair)
      obtain body rerr c' where cp: "io_Copy_LimitedReader b n c = ((body, rerr), c')"
        by (metis surj_pair)
      from Get_held [OF assms(1) g] io_Copy_buf_id [OF cp]
      have held: "distinct (buf_id body # owned_ids (s\<lparr>bp := p\<rparr>))"
        and lt: "\<forall>i \<in> set (buf_id body # owned_ids (s\<lparr>bp := p\<rparr>)). i < pool_allocated p"
        by simp_all
      show ?thesis
      proof (cases rerr)
        case (Some e)
        from assms(2) show ?thesis
          using readLoop_iter_body_error [of s header c dec t n b p body e c' env,
              OF h [unfolded None] d t n g cp [unfolded Some]]
            returned_ownership [OF held lt]
          by (auto simp: break_loop_Returns)
      next
        case rnone: None
        define s3 where "s3 = env_Close (ext_close env) (s\<lparr>bp := p, conn := c'\<rparr>)"
        from assms(2)
        have "s' = chan_send (inC_of t) body s3 \<or> s' = s3"
          unfolding readLoop_iter_select [of s header c dec t n b p body c' env,
              OF h [unfolded None] d t n g cp [unfolded rnone], folded s3_def]
          by (auto simp: select_cases split: if_splits)
        with delivered_ownership [OF held lt s3_def, of "inC_of t"] show ?thesis
          by auto
      qed
    qed
  qed
qed

lemma NewSession_buffers_inv:
  "ret_session (NewSession c yy n) = Some s \<Longrightarrow> buffers_inv s"
  by (auto simp: NewSession_def Let_def buffers_inv_def owned_ids_def newBufferPool_def
      newStream_def)

section \<open>The writer\<close>

lemma broken_pipe_session_inv: "session_inv broken_pipe_session"
  using example_session_inv [of True 0]
  by (simp add: broken_pipe_session_def session_inv_def example_session_def example_conn_def)

lemma writeLock_held:
  assumes "cfg_inv s0 ts0 (ts, s)" and "holds_writeLock (ts i)"
  shows "writeLock s \<and> (\<forall>j. holds_writeLock (ts j) \<longrightarrow> j = i)"
proof -
  have "j = i \<and> writeLock s" if "holds_writeLock (ts j)" for j
    using lock_ok_unique [OF cfg_invD(4) [OF assms(1)], of i j] assms(2) that
    by simp
  with assms(2) show ?thesis
    by blast
qed

lemma wr_written_under_lock:
  assumes "cfg_inv s0 ts0 (ts, s)" and "step (ts i) s = (t', s')"
    and "wr_written (conn s') \<noteq> wr_written (conn s)"
  shows "writeLock s \<and>
         (\<exists>b. ts i = Write_conn b \<and> wr_written (conn s') = wr_written (conn s) @ b) \<and>
         (\<forall>j. holds_writeLock (ts j) \<longrightarrow> j = i)"
proof -
  from step_wr_written [OF assms(2,3)] obtain b where b: "ts i = Write_conn b"
    by blast
  with assms(2) have "wr_written (conn s') = wr_written (conn s) @ b \<or>
      wr_written (conn s') = wr_written (conn s)"
    by (auto simp: conn_Write_def Let_def split: option.splits)
  with assms(3) have "wr_written (conn s') = wr_written (conn s) @ b"
    by simp
  moreover from b have "holds_writeLock (ts i)"
    by simp
  note writeLock_held [OF assms(1) this]
  ultimately show ?thesis
    using b by blast
qed

lemma writer_returned:
  assumes "cfg_inv s0 ts0 (ts, s)" and "ts0 i = Write_Lock b" and "ts i = Returned e"
  shows "e = wr_error (conn s0) \<and> (e \<noteq> None \<longrightarrow> closed s \<and> closedC s \<and> closing (client s))"
  using cfg_invD(2) [OF assms(1), of i] assms(2,3) by auto

lemma writer_in_doClose:
  assumes "cfg_inv s0 ts0 (ts, s)" and "call_start (ts0 i)"
    and "ts i = In_doClose err pc (From_write e)"
  shows "writeLock s \<and> e = wr_error (conn s0) \<and> e \<noteq> None \<and>
         err = Some (Errorf ''write error: '' e)"
proof -
  from assms(3) have "holds_writeLock (ts i)"
    by simp
  from writeLock_held [OF assms(1) this] have "writeLock s"
    by simp
  moreover from cfg_invD(2) [OF assms(1), of i] assms(2,3)
  have "e = wr_error (conn s0) \<and> e \<noteq> None \<and> err = Some (Errorf ''write error: '' e)"
    by (cases "ts0 i" rule: call_start.cases) auto
  ultimately show ?thesis
    by blast
qed

lemma writer_at_conn:
  assumes "cfg_inv s0 ts0 (ts, s)" and "call_start (ts0 i)" and "ts i = Write_conn b"
  shows "ts0 i = Write_Lock b"
  using cfg_invD(2) [OF assms(1), of i] assms(2,3)
  by (cases "ts0 i" rule: call_start.cases) auto

text \<open>Writes to a connection that accepts them never enter \<^verbatim>\<open>doClose\<close>.\<close>

lemma writes_step:
  assumes "wr_error (conn s) = None" and "\<forall>err pc c. t \<noteq> In_doClose err pc c"
    and "step t s = (t', s')"
  shows "(\<forall>err pc c. t' \<noteq> In_doClose err pc c) \<and> close_state s' = close_state s \<and>
         wr_error (conn s') = None"
  using assms
  by (cases "(t, s)" rule: step.cases)
    (auto simp: close_state_def Lock_def Unlock_def conn_Write_def Let_def
      split: option.splits if_splits)

lemma writes_run:
  assumes "wr_error (conn s) = None" and "\<forall>i err pc c. ts i \<noteq> In_doClose err pc c"
    and "run sched (ts, s) = (ts', s')"
  shows "close_state s' = close_state s"
  using assms
proof (induction sched arbitrary: ts s)
  case Nil
  then show ?case by (simp add: run_def)
next
  case (Cons i sched)
  obtain t1 s1 where st: "step (ts i) s = (t1, s1)"
    by (cases "step (ts i) s")
  from Cons.prems(2) have "\<forall>err pc c. ts i \<noteq> In_doClose err pc c"
    by blast
  from writes_step [OF Cons.prems(1) this st]
  have t1: "\<forall>err pc c. t1 \<noteq> In_doClose err pc c" and c1: "close_state s1 = close_state s"
    and w1: "wr_error (conn s1) = None"
    by blast+
  from t1 Cons.prems(2) have all: "\<forall>j err pc c. (ts(i := t1)) j \<noteq> In_doClose err pc c"
    by simp
  from Cons.prems(3) st have "run sched (ts(i := t1), s1) = (ts', s')"
    by (simp add: run_def sched_step_def)
  from Cons.IH [OF w1 all this] c1 show ?case
    by simp
qed

text \<open>
  C7. On a session whose locks are free, \<^verbatim>\<open>write\<close> returns what the connection write
  returned and leaves the write lock free. After a successful write the session is as
  before except that the connection has accepted the bytes. After a write error the
  session is what \<^verbatim>\<open>doClose\<close> with the wrapped write error, run with the write lock
  held, made of it: closed, with the cancellation channel and the RPC client closed,
  and with nothing written. The first step of \<^verbatim>\<open>write\<close> takes the write lock, and a
  call that finds the write lock held waits.

  When any number of calls of \<^verbatim>\<open>write\<close>, \<^verbatim>\<open>Close\<close> and \<^verbatim>\<open>doClose\<close> run together
  on the session, in any order of their steps: no goroutine panics; a goroutine between
  the \<^verbatim>\<open>Lock\<close> and the \<^verbatim>\<open>Unlock\<close> of \<^verbatim>\<open>write\<close> has the write lock held and is the
  only such goroutine; a step that changes what the connection has accepted is the
  connection write of the goroutine that holds the write lock, and appends that call's
  bytes; a goroutine is at the connection write only with the bytes its call was given; a
  call that arrives at the held write lock stays there and writes nothing; a goroutine is
  in \<^verbatim>\<open>doClose\<close> on behalf of \<^verbatim>\<open>write\<close> only with the write lock held, after a
  write error, and with that error wrapped; every \<^verbatim>\<open>write\<close> that has returned
  returned the error of the connection, and on a closed session if there is one; and
  when only writes run and the connection accepts them, nothing of the close state of
  the session changes.
\<close>

theorem Session_write_lock_and_close:
  assumes "session_inv s" and "\<not> writeLock s" and "\<not> closeLock s"
  shows "(\<exists>s'. Session_write bytes s = Returns (wr_error (conn s), s')
           \<and> \<not> writeLock s'
           \<and> (wr_error (conn s) = None \<longrightarrow>
                s' = s\<lparr>conn := (conn s)\<lparr>wr_written := wr_written (conn s) @ bytes\<rparr>\<rparr>)
           \<and> (wr_error (conn s) \<noteq> None \<longrightarrow>
                doClose (Some (Errorf ''write error: '' (wr_error (conn s))))
                  (s\<lparr>writeLock := True\<rparr>) = Returns (s'\<lparr>writeLock := True\<rparr>) \<and>
                closed s' \<and> closedC s' \<and> closing (client s') \<and>
                wr_written (conn s') = wr_written (conn s)))
       \<and> step (Write_Lock bytes) s = (Write_conn bytes, s\<lparr>writeLock := True\<rparr>)
       \<and> Session_write bytes (s\<lparr>writeLock := True\<rparr>) = Blocks
       \<and> (\<forall>ts0 sched ts sc.
            (\<forall>i. call_start (ts0 i)) \<and> run sched (ts0, s) = (ts, sc) \<longrightarrow>
              (\<forall>i. ts i \<noteq> Panicked)
            \<and> (\<forall>i. holds_writeLock (ts i) \<longrightarrow>
                  writeLock sc \<and> (\<forall>j. holds_writeLock (ts j) \<longrightarrow> j = i))
            \<and> (\<forall>i t' s''. step (ts i) sc = (t', s'') \<and>
                  wr_written (conn s'') \<noteq> wr_written (conn sc) \<longrightarrow>
                  writeLock sc \<and>
                  (\<exists>b. ts i = Write_conn b \<and>
                       wr_written (conn s'') = wr_written (conn sc) @ b) \<and>
                  (\<forall>j. holds_writeLock (ts j) \<longrightarrow> j = i))
            \<and> (\<forall>i b. ts i = Write_conn b \<longrightarrow> ts0 i = Write_Lock b)
            \<and> (\<forall>i b. ts i = Write_Lock b \<and> writeLock sc \<longrightarrow>
                  sched_step i (ts, sc) = (ts, sc))
            \<and> (\<forall>i err pc e. ts i = In_doClose err pc (From_write e) \<longrightarrow>
                  writeLock sc \<and> e = wr_error (conn s) \<and> e \<noteq> None \<and>
                  err = Some (Errorf ''write error: '' e))
            \<and> (\<forall>i b e. ts0 i = Write_Lock b \<and> ts i = Returned e \<longrightarrow>
                  e = wr_error (conn s) \<and>
                  (e \<noteq> None \<longrightarrow> closed sc \<and> closedC sc \<and> closing (client sc)))
            \<and> ((\<forall>i. \<exists>b. ts0 i = Write_Lock b) \<and> wr_error (conn s) = None \<longrightarrow>
                  close_state sc = close_state s))"
proof (intro conjI)
  show "\<exists>s'. Session_write bytes s = Returns (wr_error (conn s), s')
           \<and> \<not> writeLock s'
           \<and> (wr_error (conn s) = None \<longrightarrow>
                s' = s\<lparr>conn := (conn s)\<lparr>wr_written := wr_written (conn s) @ bytes\<rparr>\<rparr>)
           \<and> (wr_error (conn s) \<noteq> None \<longrightarrow>
                doClose (Some (Errorf ''write error: '' (wr_error (conn s))))
                  (s\<lparr>writeLock := True\<rparr>) = Returns (s'\<lparr>writeLock := True\<rparr>) \<and>
                closed s' \<and> closedC s' \<and> closing (client s') \<and>
                wr_written (conn s') = wr_written (conn s))"
  proof (cases "wr_error (conn s)")
    case None
    with assms(2) show ?thesis
      by (simp add: Session_write_unfold conn_Write_def Lock_def Unlock_def)
  next
    case (Some e)
    let ?s0 = "s\<lparr>writeLock := True\<rparr>"
    from assms have i0: "session_inv ?s0" and "closedC ?s0 = closed ?s0"
      and "\<not> closeLock ?s0"
      by (simp_all add: session_inv_def)
    then obtain s1 where cl: "doClose (Some (Errorf ''write error: '' (Some e))) ?s0 = Returns s1"
      using doClose_returns by blast
    from doClose_inv [OF i0 cl] have c1: "closed s1" "closedC s1" "closing (client s1)"
      by (simp_all add: session_inv_def)
    from doClose_frame [OF cl]
    have f1: "writeLock s1" "wr_written (conn s1) = wr_written (conn s)"
      by simp_all
    from f1(1) have relock: "s1\<lparr>writeLock := True\<rparr> = s1"
      by (cases s1) simp
    from assms(2) Some cl
    have w: "Session_write bytes s = Returns (Some e, s1\<lparr>writeLock := False\<rparr>)"
      by (simp add: Session_write_unfold conn_Write_def Lock_def Unlock_def)
    with Some cl c1 f1 relock show ?thesis
      by simp
  qed
next
  from assms(2) show "step (Write_Lock bytes) s = (Write_conn bytes, s\<lparr>writeLock := True\<rparr>)"
    by (simp add: Lock_def)
next
  show "Session_write bytes (s\<lparr>writeLock := True\<rparr>) = Blocks"
    by (simp add: Session_write_unfold Lock_def)
next
  show "\<forall>ts0 sched ts sc.
            (\<forall>i. call_start (ts0 i)) \<and> run sched (ts0, s) = (ts, sc) \<longrightarrow>
              (\<forall>i. ts i \<noteq> Panicked)
            \<and> (\<forall>i. holds_writeLock (ts i) \<longrightarrow>
                  writeLock sc \<and> (\<forall>j. holds_writeLock (ts j) \<longrightarrow> j = i))
            \<and> (\<forall>i t' s''. step (ts i) sc = (t', s'') \<and>
                  wr_written (conn s'') \<noteq> wr_written (conn sc) \<longrightarrow>
                  writeLock sc \<and>
                  (\<exists>b. ts i = Write_conn b \<and>
                       wr_written (conn s'') = wr_written (conn sc) @ b) \<and>
                  (\<forall>j. holds_writeLock (ts j) \<longrightarrow> j = i))
            \<and> (\<forall>i b. ts i = Write_conn b \<longrightarrow> ts0 i = Write_Lock b)
            \<and> (\<forall>i b. ts i = Write_Lock b \<and> writeLock sc \<longrightarrow>
                  sched_step i (ts, sc) = (ts, sc))
            \<and> (\<forall>i err pc e. ts i = In_doClose err pc (From_write e) \<longrightarrow>
                  writeLock sc \<and> e = wr_error (conn s) \<and> e \<noteq> None \<and>
                  err = Some (Errorf ''write error: '' e))
            \<and> (\<forall>i b e. ts0 i = Write_Lock b \<and> ts i = Returned e \<longrightarrow>
                  e = wr_error (conn s) \<and>
                  (e \<noteq> None \<longrightarrow> closed sc \<and> closedC sc \<and> closing (client sc)))
            \<and> ((\<forall>i. \<exists>b. ts0 i = Write_Lock b) \<and> wr_error (conn s) = None \<longrightarrow>
                  close_state sc = close_state s)"
  proof (intro allI impI, elim conjE)
    fix ts0 sched ts sc
    assume start: "\<forall>i. call_start (ts0 i)" and run: "run sched (ts0, s) = (ts, sc)"
    from cfg_inv_reachable [OF assms(1) assms(3) assms(2) start, of sched] run
    have inv: "cfg_inv s ts0 (ts, sc)"
      by simp
    have c1: "\<forall>i. ts i \<noteq> Panicked"
      using cfg_invD(1) [OF inv] by (rule allI)
    have c2: "\<forall>i. holds_writeLock (ts i) \<longrightarrow>
                  writeLock sc \<and> (\<forall>j. holds_writeLock (ts j) \<longrightarrow> j = i)"
    proof (intro allI impI)
      fix i
      assume "holds_writeLock (ts i)"
      with inv show "writeLock sc \<and> (\<forall>j. holds_writeLock (ts j) \<longrightarrow> j = i)"
        by (rule writeLock_held)
    qed
    have c3: "\<forall>i t' s''. step (ts i) sc = (t', s'') \<and>
                  wr_written (conn s'') \<noteq> wr_written (conn sc) \<longrightarrow>
                  writeLock sc \<and>
                  (\<exists>b. ts i = Write_conn b \<and>
                       wr_written (conn s'') = wr_written (conn sc) @ b) \<and>
                  (\<forall>j. holds_writeLock (ts j) \<longrightarrow> j = i)"
    proof (intro allI impI, elim conjE)
      fix i t' s''
      assume "step (ts i) sc = (t', s'')" and "wr_written (conn s'') \<noteq> wr_written (conn sc)"
      with inv show "writeLock sc \<and>
                  (\<exists>b. ts i = Write_conn b \<and>
                       wr_written (conn s'') = wr_written (conn sc) @ b) \<and>
                  (\<forall>j. holds_writeLock (ts j) \<longrightarrow> j = i)"
        by (rule wr_written_under_lock)
    qed
    have c4: "\<forall>i b. ts i = Write_conn b \<longrightarrow> ts0 i = Write_Lock b"
    proof (intro allI impI)
      fix i b
      assume "ts i = Write_conn b"
      with inv start [rule_format, of i] show "ts0 i = Write_Lock b"
        by (rule writer_at_conn)
    qed
    have c5: "\<forall>i b. ts i = Write_Lock b \<and> writeLock sc \<longrightarrow>
                  sched_step i (ts, sc) = (ts, sc)"
    proof (intro allI impI, elim conjE)
      fix i b
      assume "ts i = Write_Lock b" and "writeLock sc"
      then show "sched_step i (ts, sc) = (ts, sc)"
        by (simp add: parked(2))
    qed
    have c6: "\<forall>i err pc e. ts i = In_doClose err pc (From_write e) \<longrightarrow>
                  writeLock sc \<and> e = wr_error (conn s) \<and> e \<noteq> None \<and>
                  err = Some (Errorf ''write error: '' e)"
    proof (intro allI impI)
      fix i err pc e
      assume "ts i = In_doClose err pc (From_write e)"
      with inv start [rule_format, of i]
      show "writeLock sc \<and> e = wr_error (conn s) \<and> e \<noteq> None \<and>
                  err = Some (Errorf ''write error: '' e)"
        by (rule writer_in_doClose)
    qed
    have c7: "\<forall>i b e. ts0 i = Write_Lock b \<and> ts i = Returned e \<longrightarrow>
                  e = wr_error (conn s) \<and>
                  (e \<noteq> None \<longrightarrow> closed sc \<and> closedC sc \<and> closing (client sc))"
    proof (intro allI impI, elim conjE)
      fix i b e
      assume "ts0 i = Write_Lock b" and "ts i = Returned e"
      with inv show "e = wr_error (conn s) \<and>
                  (e \<noteq> None \<longrightarrow> closed sc \<and> closedC sc \<and> closing (client sc))"
        by (rule writer_returned)
    qed
    have c8: "(\<forall>i. \<exists>b. ts0 i = Write_Lock b) \<and> wr_error (conn s) = None \<longrightarrow>
                  close_state sc = close_state s"
    proof (intro impI, elim conjE)
      assume w: "\<forall>i. \<exists>b. ts0 i = Write_Lock b" and ok: "wr_error (conn s) = None"
      have "\<forall>i err pc c. ts0 i \<noteq> In_doClose err pc c"
      proof (intro allI)
        fix i err pc c
        from w obtain b where "ts0 i = Write_Lock b"
          by blast
        then show "ts0 i \<noteq> In_doClose err pc c"
          by simp
      qed
      with ok show "close_state sc = close_state s"
        using run by (rule writes_run)
    qed
    show "(\<forall>i. ts i \<noteq> Panicked)
            \<and> (\<forall>i. holds_writeLock (ts i) \<longrightarrow>
                  writeLock sc \<and> (\<forall>j. holds_writeLock (ts j) \<longrightarrow> j = i))
            \<and> (\<forall>i t' s''. step (ts i) sc = (t', s'') \<and>
                  wr_written (conn s'') \<noteq> wr_written (conn sc) \<longrightarrow>
                  writeLock sc \<and>
                  (\<exists>b. ts i = Write_conn b \<and>
                       wr_written (conn s'') = wr_written (conn sc) @ b) \<and>
                  (\<forall>j. holds_writeLock (ts j) \<longrightarrow> j = i))
            \<and> (\<forall>i b. ts i = Write_conn b \<longrightarrow> ts0 i = Write_Lock b)
            \<and> (\<forall>i b. ts i = Write_Lock b \<and> writeLock sc \<longrightarrow>
                  sched_step i (ts, sc) = (ts, sc))
            \<and> (\<forall>i err pc e. ts i = In_doClose err pc (From_write e) \<longrightarrow>
                  writeLock sc \<and> e = wr_error (conn s) \<and> e \<noteq> None \<and>
                  err = Some (Errorf ''write error: '' e))
            \<and> (\<forall>i b e. ts0 i = Write_Lock b \<and> ts i = Returned e \<longrightarrow>
                  e = wr_error (conn s) \<and>
                  (e \<noteq> None \<longrightarrow> closed sc \<and> closedC sc \<and> closing (client sc)))
            \<and> ((\<forall>i. \<exists>b. ts0 i = Write_Lock b) \<and> wr_error (conn s) = None \<longrightarrow>
                  close_state sc = close_state s)"
      by (intro conjI c1 c2 c3 c4 c5 c6 c7 c8)
  qed
qed

theorem Session_write_lock_and_close_witness:
  "session_inv broken_pipe_session \<and> \<not> writeLock broken_pipe_session \<and>
   \<not> closeLock broken_pipe_session \<and>
   (\<exists>s'. Session_write [1, 2, 3] broken_pipe_session =
           Returns (Some (ConnError ''broken pipe''), s') \<and>
         closed s' \<and> \<not> writeLock s' \<and> wr_written (conn s') = []) \<and>
   session_inv (example_session True 0) \<and> \<not> writeLock (example_session True 0) \<and>
   \<not> closeLock (example_session True 0) \<and>
   Session_write [1, 2, 3] (example_session True 0) =
     Returns (None, (example_session True 0)\<lparr>conn := example_conn\<lparr>wr_written := [1, 2, 3]\<rparr>\<rparr>) \<and>
   (\<forall>i. call_start (writers i)) \<and>
   (\<exists>ts sc. run (take 2 write_schedule) (writers, example_session True 0) = (ts, sc) \<and>
         ts 0 = Write_conn [1, 2, 3] \<and> ts 1 = Write_Lock [4, 5] \<and> writeLock sc \<and>
         wr_written (conn sc) = [] \<and> sched_step 1 (ts, sc) = (ts, sc)) \<and>
   (\<exists>ts sc. run write_schedule (writers, example_session True 0) = (ts, sc) \<and>
         ts 0 = Returned None \<and> ts 1 = Returned None \<and>
         wr_written (conn sc) = [1, 2, 3, 4, 5] \<and> \<not> writeLock sc \<and> \<not> closed sc) \<and>
   (\<exists>ts sc. run write_schedule (writers, broken_pipe_session) = (ts, sc) \<and>
         ts 0 = In_doClose (Some (Errorf ''write error: '' (Some (ConnError ''broken pipe''))))
                  DC_Check (From_write (Some (ConnError ''broken pipe''))) \<and>
         ts 1 = Write_Lock [4, 5] \<and> writeLock sc \<and> closeLock sc \<and>
         wr_written (conn sc) = [])"
proof -
  have b1: "session_inv broken_pipe_session"
    by (rule broken_pipe_session_inv)
  have b2: "\<not> writeLock broken_pipe_session" and b3: "\<not> closeLock broken_pipe_session"
    and b4: "wr_error (conn broken_pipe_session) = Some (ConnError ''broken pipe'')"
    and b5: "wr_written (conn broken_pipe_session) = []"
    by (simp_all add: broken_pipe_session_def example_session_def example_conn_def)
  have e1: "session_inv (example_session True 0)"
    by (rule example_session_inv)
  have e2: "\<not> writeLock (example_session True 0)" and e3: "\<not> closeLock (example_session True 0)"
    and e4: "wr_error (conn (example_session True 0)) = None"
    and e5: "(conn (example_session True 0))\<lparr>wr_written :=
        wr_written (conn (example_session True 0)) @ [1, 2, 3]\<rparr> =
      example_conn\<lparr>wr_written := [1, 2, 3]\<rparr>"
    and e6: "\<not> closed (example_session True 0)"
    by (simp_all add: example_session_def example_conn_def)
  have st: "\<forall>i. call_start (writers i)"
    by (simp add: writers_def)
  have wo: "\<forall>i. \<exists>b. writers i = Write_Lock b"
    by (simp add: writers_def)
  note wb = Session_write_lock_and_close [OF b1 b2 b3, of "[1, 2, 3]"]
  note we = Session_write_lock_and_close [OF e1 e2 e3, of "[1, 2, 3]"]
  from wb b4 b5
  have w1: "\<exists>s'. Session_write [1, 2, 3] broken_pipe_session =
           Returns (Some (ConnError ''broken pipe''), s') \<and>
         closed s' \<and> \<not> writeLock s' \<and> wr_written (conn s') = []"
    by auto
  from we e4 e5
  have w2: "Session_write [1, 2, 3] (example_session True 0) =
      Returns (None, (example_session True 0)\<lparr>conn := example_conn\<lparr>wr_written := [1, 2, 3]\<rparr>\<rparr>)"
    by auto
  define tp where "tp = fst (run (take 2 write_schedule) (writers, example_session True 0))"
  define sp where "sp = snd (run (take 2 write_schedule) (writers, example_session True 0))"
  have rp: "run (take 2 write_schedule) (writers, example_session True 0) = (tp, sp)"
    by (simp add: tp_def sp_def)
  have p0: "tp 0 = Write_conn [1, 2, 3]" and p1: "tp 1 = Write_Lock [4, 5]"
    and pl: "writeLock sp" and pw: "wr_written (conn sp) = []"
    by (simp_all add: tp_def sp_def run_def write_schedule_def sched_step_def writers_def
        example_session_def example_conn_def Lock_def)
  from we st rp
  have "\<forall>i b. tp i = Write_Lock b \<and> writeLock sp \<longrightarrow> sched_step i (tp, sp) = (tp, sp)"
    by blast
  with p1 pl have "sched_step 1 (tp, sp) = (tp, sp)"
    by blast
  with rp p0 p1 pl pw
  have w3: "\<exists>ts sc. run (take 2 write_schedule) (writers, example_session True 0) = (ts, sc) \<and>
         ts 0 = Write_conn [1, 2, 3] \<and> ts 1 = Write_Lock [4, 5] \<and> writeLock sc \<and>
         wr_written (conn sc) = [] \<and> sched_step 1 (ts, sc) = (ts, sc)"
    by blast
  define ts where "ts = fst (run write_schedule (writers, example_session True 0))"
  define sc where "sc = snd (run write_schedule (writers, example_session True 0))"
  have r: "run write_schedule (writers, example_session True 0) = (ts, sc)"
    by (simp add: ts_def sc_def)
  have t0: "ts 0 = Returned None" and t1: "ts 1 = Returned None"
    and tw: "wr_written (conn sc) = [1, 2, 3, 4, 5]" and tl: "\<not> writeLock sc"
    by (simp_all add: ts_def sc_def run_def write_schedule_def sched_step_def writers_def
        example_session_def example_conn_def Lock_def Unlock_def conn_Write_def)
  from we st r
  have "(\<forall>i. \<exists>b. writers i = Write_Lock b) \<and> wr_error (conn (example_session True 0)) = None \<longrightarrow>
      close_state sc = close_state (example_session True 0)"
    by blast
  with wo e4 have "close_state sc = close_state (example_session True 0)"
    by blast
  with e6 have "\<not> closed sc"
    by (simp add: close_state_def)
  with r t0 t1 tw tl
  have w4: "\<exists>ts sc. run write_schedule (writers, example_session True 0) = (ts, sc) \<and>
         ts 0 = Returned None \<and> ts 1 = Returned None \<and>
         wr_written (conn sc) = [1, 2, 3, 4, 5] \<and> \<not> writeLock sc \<and> \<not> closed sc"
    by blast
  define tb where "tb = fst (run write_schedule (writers, broken_pipe_session))"
  define sb where "sb = snd (run write_schedule (writers, broken_pipe_session))"
  have rb: "run write_schedule (writers, broken_pipe_session) = (tb, sb)"
    by (simp add: tb_def sb_def)
  have q0: "tb 0 = In_doClose (Some (Errorf ''write error: '' (Some (ConnError ''broken pipe''))))
                  DC_Check (From_write (Some (ConnError ''broken pipe'')))"
    and q1: "tb 1 = Write_Lock [4, 5]" and ql: "closeLock sb"
    and qw: "wr_written (conn sb) = []"
    by (simp_all add: tb_def sb_def run_def write_schedule_def sched_step_def writers_def
        broken_pipe_session_def example_session_def example_conn_def Lock_def Unlock_def
        conn_Write_def)
  from wb st rb
  have "\<forall>i err pc e. tb i = In_doClose err pc (From_write e) \<longrightarrow>
                  writeLock sb \<and> e = wr_error (conn broken_pipe_session) \<and> e \<noteq> None \<and>
                  err = Some (Errorf ''write error: '' e)"
    by blast
  with q0 have "writeLock sb"
    by blast
  with rb q0 q1 ql qw
  have w5: "\<exists>ts sc. run write_schedule (writers, broken_pipe_session) = (ts, sc) \<and>
         ts 0 = In_doClose (Some (Errorf ''write error: '' (Some (ConnError ''broken pipe''))))
                  DC_Check (From_write (Some (ConnError ''broken pipe''))) \<and>
         ts 1 = Write_Lock [4, 5] \<and> writeLock sc \<and> closeLock sc \<and>
         wr_written (conn sc) = []"
    by blast
  from b1 b2 b3 w1 e1 e2 e3 w2 st w3 w4 w5 show ?thesis
    by (intro conjI)
qed

text \<open>The writer keeps the session invariant and never reopens a session.\<close>

lemma Session_write_inv:
  assumes "session_inv s" and "Session_write bytes s = Returns (e, s')"
  shows "session_inv s' \<and> (closed s \<longrightarrow> closed s')"
proof -
  from assms(2) have free: "\<not> writeLock s"
    by (auto simp: Session_write_unfold Lock_def split: if_splits)
  let ?s0 = "s\<lparr>writeLock := True\<rparr>"
  from assms(1) have i0: "session_inv ?s0"
    by (simp add: session_inv_def)
  show ?thesis
  proof (cases "wr_error (conn s)")
    case None
    with assms free show ?thesis
      by (auto simp: Session_write_unfold Lock_def Unlock_def conn_Write_def session_inv_def)
  next
    case (Some err)
    with assms(2) free obtain s1
      where cl: "doClose (Some (Errorf ''write error: '' (Some err))) ?s0 = Returns s1"
        and s': "s' = s1\<lparr>writeLock := False\<rparr>"
      by (auto simp: Session_write_unfold Lock_def Unlock_def conn_Write_def
          split: outcome.splits)
    from doClose_inv [OF i0 cl] s' show ?thesis
      by (simp add: session_inv_def)
  qed
qed

end
